theory Spec2Isabelle
  imports Complex_Main "HOL-Library.AList"
begin

section \<open>Numbers, dates and strings\<close>

text \<open>
  The program is JavaScript (\<open>src/app/page.tsx\<close>). Its numbers are modelled as exact
  rationals: durations, lags and deltas may be fractions of a day, and an instant is a
  number of milliseconds since the epoch that need not be whole. The rounding of a double
  and the overflow to \<open>Infinity\<close> are not modelled, so \<open>NaN\<close> and \<open>undefined\<close> only arise
  from absent or unparseable input and from a \<open>Date\<close> out of range; they are the value
  \<open>None\<close>. Activity ids and counts are whole numbers. Text is modelled over 8-bit
  characters.
\<close>

definition DAY_MS :: rat where
  "DAY_MS = 24 * 60 * 60 * 1000"

definition MAX_TIME :: rat where
  \<comment> \<open>A \<open>Date\<close> holds at most \<open>8.64e15\<close> milliseconds either side of the epoch.\<close>
  "MAX_TIME = 8640000000000000"

subsection \<open>The calendar of \<open>Date\<close>\<close>

text \<open>
  The date fields of a row are texts. The rows that reach \<open>simulateScenario\<close> come from
  \<open>normalizeRow\<close> or from an earlier call, and both write a date as the first ten
  characters of \<open>toISOString()\<close>. For a year from 0000 to 9999 these are the date-only text
  \<open>YYYY-MM-DD\<close>, modelled by \<open>Day n\<close> with \<open>n\<close> the number of days since 1970-01-01; for any
  other year \<open>toISOString\<close> writes a sign and six digits for the year, and the ten characters
  are the sign, the year and the month, \<open>Month y m\<close>. A value of \<open>date\<close> that is neither
  (a \<open>Day\<close> outside the four-digit years, a \<open>Month\<close> inside them or without such a month)
  stands for a text that \<open>new Date\<close> cannot read.

  \<open>civil\<close> and \<open>daysFromCivil\<close> are the proleptic Gregorian calendar that \<open>Date\<close> uses
  (year, month, day of a day number and back).
\<close>

datatype date = Day int | Month int int

definition civil :: "int \<Rightarrow> int \<times> int \<times> int" where
  "civil n =
     (let z = n + 719468;
          era = z div 146097;
          doe = z mod 146097;
          yoe = (doe - doe div 1460 + doe div 36524 - doe div 146096) div 365;
          doy = doe - (365 * yoe + yoe div 4 - yoe div 100);
          mp = (5 * doy + 2) div 153;
          d = doy - (153 * mp + 2) div 5 + 1;
          m = (if mp < 10 then mp + 3 else mp - 9);
          y = yoe + era * 400 + (if m \<le> 2 then 1 else 0)
      in (y, m, d))"

definition daysFromCivil :: "int \<Rightarrow> int \<Rightarrow> int \<Rightarrow> int" where
  "daysFromCivil y m d =
     (let y' = (if m \<le> 2 then y - 1 else y);
          era = y' div 400;
          yoe = y' mod 400;
          doy = (153 * (if m > 2 then m - 3 else m + 9) + 2) div 5 + d - 1;
          doe = yoe * 365 + yoe div 4 - yoe div 100 + doy
      in era * 146097 + doe - 719468)"

definition fourDigitYear :: "int \<Rightarrow> bool" where
  \<comment> \<open>The day \<open>n\<close> lies in a year from 0000 to 9999: from 0000-01-01, the day
      \<open>-719528\<close>, to 9999-12-31, the day \<open>2932896\<close>.\<close>
  "fourDigitYear n \<longleftrightarrow> - 719528 \<le> n \<and> n \<le> 2932896"

definition dayOf :: "rat \<Rightarrow> int" where
  \<comment> \<open>The UTC day of \<open>new Date(ms)\<close>: the constructor drops the fraction of \<open>ms\<close>
      (towards zero), and the day is the floor of the rest over the length of a day.\<close>
  "dayOf ms = (if ms \<ge> 0 then \<lfloor>ms\<rfloor> else \<lceil>ms\<rceil>) div 86400000"

definition isoDate :: "int \<Rightarrow> date" where
  \<comment> \<open>\<open>toISOString().slice(0, 10)\<close> of a date on the day \<open>n\<close>.\<close>
  "isoDate n =
     (if fourDigitYear n then Day n else Month (fst (civil n)) (fst (snd (civil n))))"

definition parseDate :: "date option \<Rightarrow> rat option" where
  \<comment> \<open>\<open>parseDate(d)?.getTime()\<close>: midnight UTC of the day, or of the first day of the
      month; \<open>None\<close> for an absent or empty field and for a text that is no date.\<close>
  "parseDate d =
     (case d of
        None \<Rightarrow> None
      | Some (Day n) \<Rightarrow> if fourDigitYear n then Some (of_int n * DAY_MS) else None
      | Some (Month y m) \<Rightarrow>
          if (y < 0 \<or> 9999 < y) \<and> 1 \<le> m \<and> m \<le> 12 \<and>
             \<bar>of_int (daysFromCivil y m 1) * DAY_MS\<bar> \<le> MAX_TIME
          then Some (of_int (daysFromCivil y m 1) * DAY_MS) else None)"

definition toISODate :: "rat option \<Rightarrow> date option" where
  \<comment> \<open>\<open>undefined\<close> for a non-finite argument and for an instant that is no valid
      \<open>Date\<close>, else \<open>new Date(ms).toISOString().slice(0, 10)\<close>.\<close>
  "toISODate ms =
     (case ms of
        None \<Rightarrow> None
      | Some x \<Rightarrow> if \<bar>x\<bar> > MAX_TIME then None else Some (isoDate (dayOf x)))"

definition mathRound :: "rat \<Rightarrow> int" where
  \<comment> \<open>\<open>Math.round\<close>: the nearest whole number, a half going up.\<close>
  "mathRound x = \<lfloor>x + 1 / 2\<rfloor>"

definition nullish :: "'a option \<Rightarrow> 'a \<Rightarrow> 'a" where
  \<comment> \<open>\<open>a ?? b\<close>\<close>
  "nullish a b = (case a of Some x \<Rightarrow> x | None \<Rightarrow> b)"

definition isDigit :: "char \<Rightarrow> bool" where
  \<comment> \<open>\<open>c >= '0' && c <= '9'\<close>\<close>
  "isDigit c \<longleftrightarrow> (48::int) \<le> of_char c \<and> (of_char c :: int) \<le> 57"

definition isSpace :: "char \<Rightarrow> bool" where
  \<comment> \<open>The white space and line terminators that \<open>String.prototype.trim\<close> removes,
      among the 8-bit characters: tab, LF, VT, FF, CR, space and the no-break space.\<close>
  "isSpace c \<longleftrightarrow> (of_char c :: int) \<in> {9, 10, 11, 12, 13, 32, 160}"

definition trim :: "string \<Rightarrow> string" where
  "trim s = rev (dropWhile isSpace (rev (dropWhile isSpace s)))"

definition toUpperChar :: "char \<Rightarrow> string" where
  \<comment> \<open>\<open>toUpperCase\<close> of one 8-bit character: the letters \<open>a\<close> to \<open>z\<close> and the
      accented small letters move 32 places down, the sharp s becomes \<open>SS\<close>. The capitals
      of the micro sign (181) and of the y with diaeresis (255) are no 8-bit characters;
      the two stand for their capitals, which like them differ from every ASCII letter.\<close>
  "toUpperChar c =
     (let n = (of_char c :: int)
      in if 97 \<le> n \<and> n \<le> 122 then [char_of (n - 32)]
         else if n = 223 then ''SS''
         else if 224 \<le> n \<and> n \<le> 254 \<and> n \<noteq> 247 then [char_of (n - 32)]
         else [c])"

definition toUpperCase :: "string \<Rightarrow> string" where
  "toUpperCase s = concat (map toUpperChar s)"

definition digitsValue :: "string \<Rightarrow> int" where
  \<comment> \<open>\<open>Number(s)\<close> for a string of decimal digits, as the exact whole number;
      \<open>Number("")\<close> is \<open>0\<close>.\<close>
  "digitsValue s = foldl (\<lambda>n c. 10 * n + (of_char c - 48)) 0 s"

definition numberIsFinite :: "int \<Rightarrow> bool" where
  \<comment> \<open>\<open>Number.isFinite\<close> of the number read from a digit string: a decimal at or
      above \<open>2^1024 - 2^970\<close> reads as \<open>Infinity\<close>.\<close>
  "numberIsFinite n \<longleftrightarrow> n < 2 ^ 1024 - 2 ^ 970"

fun indexOf :: "string \<Rightarrow> char \<Rightarrow> nat option" where
  \<comment> \<open>\<open>s.indexOf(c)\<close>, with \<open>None\<close> for \<open>-1\<close>.\<close>
  "indexOf [] c = None"
| "indexOf (x # xs) c = (if x = c then Some 0 else map_option Suc (indexOf xs c))"

function showNat :: "int \<Rightarrow> string" where
  \<comment> \<open>The decimal rendering of a number that is not negative, as a template string
      has it.\<close>
  "showNat n =
     (if n < 10 then [char_of (48 + n)]
      else showNat (n div 10) @ [char_of (48 + n mod 10)])"
  by pat_completeness auto
termination
  by (relation "measure nat") auto

declare showNat.simps [simp del]

section \<open>Token parser\<close>

text \<open>
  A relationship as the extractors deliver it. The solver reads the lag as
  \<open>Number(rel.Lag_d) || 0\<close>, so a lag that is no number counts as \<open>0\<close> and is modelled
  by \<open>0\<close>.
\<close>

record rel =
  PredID :: int
  SuccID :: int
  RelType :: string
  Lag_d :: rat

definition relTypes :: "string list" where
  "relTypes = [''FS'', ''SS'', ''FF'', ''SF'']"

definition lagClause :: "string \<Rightarrow> rat" where
  \<comment> \<open>The part of \<open>parseLinkToken\<close> after the relationship code: the leftmost of
      \<open>+\<close> and \<open>-\<close>, spaces, then a run of digits.\<close>
  "lagClause rest =
     (let plus = indexOf rest (CHR ''+'');
          minus = indexOf rest (CHR ''-'');
          pos_sign =
            (case plus of
               Some p \<Rightarrow>
                 (case minus of
                    None \<Rightarrow> Some (p, 1)
                  | Some m \<Rightarrow> if p < m then Some (p, 1) else Some (m, - 1))
             | None \<Rightarrow> (case minus of Some m \<Rightarrow> Some (m, - 1) | None \<Rightarrow> None))
      in case pos_sign of
           None \<Rightarrow> 0
         | Some (pos, sign) \<Rightarrow>
             (let numStr = takeWhile isDigit
                             (dropWhile (\<lambda>c. c = CHR '' '') (drop (pos + 1) rest))
              in if numStr \<noteq> [] then sign * of_int (digitsValue numStr) else 0))"

definition parseLinkToken :: "string option \<Rightarrow> int \<Rightarrow> rel option" where
  "parseLinkToken token succId =
     (case token of
        None \<Rightarrow> None
      | Some tok \<Rightarrow>
          (let t = trim tok in
           if t = [] then None
           else
             (let idStr = takeWhile isDigit t;
                  ident = digitsValue idStr
              in if \<not> numberIsFinite ident then None
                 else
                   (let rest = trim (dropWhile isDigit t);
                        maybeType = toUpperCase (take 2 rest);
                        hit = (maybeType \<in> set relTypes);
                        rest' = (if hit then trim (drop 2 rest) else rest)
                    in Some \<lparr> PredID = ident, SuccID = succId,
                              RelType = (if hit then maybeType else ''FS''),
                              Lag_d = lagClause rest' \<rparr>))))"

section \<open>Scenario library\<close>

record scenario =
  scenario_id :: string
  title :: string
  activityId :: "int option"
  deltaDays :: rat
  createdAt :: int

text \<open>
  The part of the component state that the scenario handlers read and write. The form
  field \<open>scenarioActivity\<close> is the string chosen in the select box (\<open>""\<close> when nothing is
  chosen); \<open>viewRows\<close> is the state variable \<open>rows\<close> (the loaded baseline) and
  \<open>simRows\<close> is the simulated schedule or null.
\<close>

record 'r view =
  viewRows :: "'r list"
  simRows :: "'r list option"
  scenarioActivity :: string
  scenarioMode :: string
  scenarioDays :: rat
  scenarioTitle :: string
  scenarioLibrary :: "scenario list"
  activeScenario :: "scenario option"
  scenarioStatus :: string

definition numberOfString :: "string \<Rightarrow> int option" where
  \<comment> \<open>\<open>Number(s)\<close> on the strings the select box produces: an optional minus sign and
      decimal digits, anything else being \<open>NaN\<close>; the empty string is \<open>0\<close>.\<close>
  "numberOfString s =
     (let t = trim s in
      if t = [] then Some 0
      else if hd t = CHR ''-'' \<and> tl t \<noteq> [] \<and> list_all isDigit (tl t)
        then Some (- digitsValue (tl t))
      else if list_all isDigit t then Some (digitsValue t)
      else None)"

definition scenarioFormValid :: "'r view \<Rightarrow> bool" where
  "scenarioFormValid v \<longleftrightarrow> scenarioActivity v \<noteq> [] \<and> \<bar>scenarioDays v\<bar> > 0"

definition maxScenariosReached :: "'r view \<Rightarrow> bool" where
  "maxScenariosReached v \<longleftrightarrow> length (scenarioLibrary v) \<ge> 10"

definition activeRows :: "'r view \<Rightarrow> 'r list" where
  \<comment> \<open>\<open>simRows ?? rows\<close>\<close>
  "activeRows v = (case simRows v of None \<Rightarrow> viewRows v | Some s \<Rightarrow> s)"

definition newScenario :: "int \<Rightarrow> 'r view \<Rightarrow> scenario" where
  \<comment> \<open>The object literal built in \<open>handleSaveScenario\<close>; \<open>now\<close> is \<open>Date.now()\<close>.\<close>
  "newScenario now v =
     (let impactDays = \<bar>scenarioDays v\<bar>;
          delta = (if scenarioMode v = ''delay'' then impactDays else - impactDays)
      in \<lparr> scenario_id = ''scenario-'' @ showNat now,
           title = (if trim (scenarioTitle v) \<noteq> [] then trim (scenarioTitle v)
                    else ''Scenario '' @ showNat (int (length (scenarioLibrary v)) + 1)),
           activityId = numberOfString (scenarioActivity v),
           deltaDays = delta,
           createdAt = now \<rparr>)"

definition handleSaveScenario :: "int \<Rightarrow> 'r view \<Rightarrow> 'r view" where
  "handleSaveScenario now v =
     (if \<not> scenarioFormValid v then
        v\<lparr>scenarioStatus := ''Choose an activity and impact before saving the scenario.''\<rparr>
      else if maxScenariosReached v then
        v\<lparr>scenarioStatus := ''Scenario library full (10). Delete one to add a new scenario.''\<rparr>
      else
        (let sc = newScenario now v in
         v\<lparr>scenarioLibrary := scenarioLibrary v @ [sc],
           scenarioStatus := ''Scenario '' @ [CHR 0x22] @ title sc @ [CHR 0x22] @ '' saved.''\<rparr>))"

definition clearScenarioView :: "'r view \<Rightarrow> 'r view" where
  "clearScenarioView v =
     v\<lparr>simRows := None, activeScenario := None,
       scenarioStatus := ''Scenario view reset. Showing baseline schedule.''\<rparr>"

section \<open>Scenario engine\<close>

text \<open>
  An activity record as \<open>normalizeRow\<close> delivers it. A date field holds its text, a
  numeric field its number; \<open>None\<close> stands for an absent, empty or non-numeric value. Every
  other column of the sheet lives in the extension part of the record, so the functions
  below are stated for any \<open>'a row_scheme\<close>.
\<close>

record row =
  ActivityID :: "int option"
  TaskName :: string
  ES :: "date option"
  EF :: "date option"
  LS :: "date option"
  LF :: "date option"
  DurDays :: "rat option"
  TotalFloat_d :: "rat option"
  FreeFloat_d :: "rat option"
  Milestone :: bool

text \<open>
  The working object that \<open>simulateScenario\<close> builds for each row. Its fields \<open>row\<close> and
  \<open>idx\<close> are never read again and its \<open>id\<close> is the key under which \<open>idMap\<close> holds it, so
  the three are left out. Instants are milliseconds; \<open>None\<close> is \<open>undefined\<close> or \<open>NaN\<close>.
\<close>

record task =
  duration :: rat
  baseES :: "rat option"
  baseEF :: "rat option"
  baseLS :: "rat option"
  baseLF :: "rat option"
  task_ES :: "rat option"
  task_EF :: "rat option"
  task_LS :: "rat option"
  task_LF :: "rat option"
  task_TotalFloat_d :: "rat option"
  task_FreeFloat_d :: "rat option"

text \<open>
  \<open>idMap\<close> is a JavaScript \<open>Map\<close>: an association list in insertion order, where setting
  an existing key replaces the value in place (\<open>AList.update\<close>). The objects in it are
  shared with the ready queue, which therefore holds keys.
\<close>

type_synonym idmap = "(int \<times> task) list"

definition deriveDurationDays :: "'a row_scheme \<Rightarrow> rat" where
  "deriveDurationDays r =
     (let derived =
            (case (parseDate (ES r), parseDate (EF r)) of
               (Some es, Some ef) \<Rightarrow> max 0 (of_int (mathRound ((ef - es) / DAY_MS)))
             | _ \<Rightarrow> 0)
      in case DurDays r of
           Some dur \<Rightarrow> if dur \<ge> 0 then dur else derived
         | None \<Rightarrow> derived)"

definition normalizeRelType :: "string \<Rightarrow> string" where
  "normalizeRelType ty =
     (let t = toUpperCase (if ty = [] then ''FS'' else ty)
      in if t \<in> set relTypes then t else ''FS'')"

definition mkTask :: "'a row_scheme \<Rightarrow> task" where
  "mkTask r =
     \<lparr> duration = deriveDurationDays r,
       baseES = parseDate (ES r), baseEF = parseDate (EF r),
       baseLS = parseDate (LS r), baseLF = parseDate (LF r),
       task_ES = None, task_EF = None, task_LS = None, task_LF = None,
       task_TotalFloat_d = TotalFloat_d r, task_FreeFloat_d = FreeFloat_d r \<rparr>"

definition buildIdMap :: "'a row_scheme list \<Rightarrow> idmap" where
  \<comment> \<open>\<open>if (Number.isFinite(task.id)) idMap.set(task.id, task)\<close>, row after row.\<close>
  "buildIdMap rs =
     fold (\<lambda>r m. case ActivityID r of Some i \<Rightarrow> AList.update i (mkTask r) m | None \<Rightarrow> m)
       rs []"

definition defaultStart :: "int \<Rightarrow> idmap \<Rightarrow> rat" where
  \<comment> \<open>The least baseline early start; \<open>Date.now()\<close>, here \<open>now\<close>, when there is none.
      The accumulator \<open>None\<close> is the initial \<open>Infinity\<close>.\<close>
  "defaultStart now m =
     nullish
       (fold (\<lambda>(i, t) acc.
                case baseES t of
                  Some b \<Rightarrow> Some (case acc of None \<Rightarrow> b | Some a \<Rightarrow> min a b)
                | None \<Rightarrow> acc) m None)
       (of_int now)"

definition fillDefaults :: "rat \<Rightarrow> task \<Rightarrow> task" where
  "fillDefaults ds t =
     (let b = nullish (baseES t) ds
      in t\<lparr>baseES := Some b,
           baseEF := Some (nullish (baseEF t) (b + duration t * DAY_MS))\<rparr>)"

definition applyImpact :: "scenario option \<Rightarrow> idmap \<Rightarrow> idmap" where
  "applyImpact impact m =
     (case impact of
        None \<Rightarrow> m
      | Some imp \<Rightarrow>
          (case activityId imp of
             None \<Rightarrow> m
           | Some a \<Rightarrow>
               (case map_of m a of
                  None \<Rightarrow> m
                | Some hit \<Rightarrow>
                    AList.update a
                      (hit\<lparr>duration := max 0 (duration hit + deltaDays imp)\<rparr>) m)))"

definition initTasks :: "rat \<Rightarrow> 'a row_scheme list \<Rightarrow> scenario option \<Rightarrow> idmap" where
  \<comment> \<open>\<open>idMap\<close> when the network is about to be built.\<close>
  "initTasks ds rs impact =
     applyImpact impact (map (\<lambda>(i, t). (i, fillDefaults ds t)) (buildIdMap rs))"

definition networkEdges :: "idmap \<Rightarrow> rel list \<Rightarrow> rel list" where
  "networkEdges m rels =
     map (\<lambda>r. r\<lparr>RelType := normalizeRelType (RelType r)\<rparr>)
       (filter (\<lambda>r. map_of m (PredID r) \<noteq> None \<and> map_of m (SuccID r) \<noteq> None) rels)"

definition succMap :: "rel list \<Rightarrow> int \<Rightarrow> rel list" where
  \<comment> \<open>\<open>succMap.get(id) || []\<close>: the edges pushed under their \<open>PredID\<close>, in list order.\<close>
  "succMap edges i = filter (\<lambda>r. PredID r = i) edges"

definition initIndegree :: "idmap \<Rightarrow> rel list \<Rightarrow> (int \<rightharpoonup> int)" where
  "initIndegree m edges =
     fold (\<lambda>r d. d(SuccID r \<mapsto> nullish (d (SuccID r)) 0 + 1)) edges
       (\<lambda>i. if i \<in> set (map fst m) then Some 0 else None)"

definition sortQueue :: "idmap \<Rightarrow> int list \<Rightarrow> int list" where
  \<comment> \<open>\<open>queue.sort((a, b) => (a.baseES ?? 0) - (b.baseES ?? 0))\<close>; the sort is stable.\<close>
  "sortQueue m q =
     sort_key (\<lambda>i. case map_of m i of Some t \<Rightarrow> nullish (baseES t) 0 | None \<Rightarrow> 0) q"

record fwd =
  idMap :: idmap
  queue :: "int list"
  pending :: "int \<rightharpoonup> rat"
  indegree :: "int \<rightharpoonup> int"
  topo :: "int list"

definition needed :: "rat \<Rightarrow> rat \<Rightarrow> rel \<Rightarrow> task \<Rightarrow> rat" where
  \<comment> \<open>What an edge asks of its successor's early start, from the early start and early
      finish of the activity that was just scheduled.\<close>
  "needed curES curEF r succ =
     (let lagMs = Lag_d r * DAY_MS
      in if RelType r = ''SS'' then curES + lagMs
         else if RelType r = ''FF'' then curEF + lagMs - duration succ * DAY_MS
         else if RelType r = ''SF'' then curES + lagMs - duration succ * DAY_MS
         else curEF + lagMs)"

definition relaxEdge :: "rat \<Rightarrow> rat \<Rightarrow> rel \<Rightarrow> fwd \<Rightarrow> fwd" where
  \<comment> \<open>The body of \<open>for (const rel of succMap.get(current.id) || [])\<close>.\<close>
  "relaxEdge curES curEF r st =
     (case map_of (idMap st) (SuccID r) of
        None \<Rightarrow> st
      | Some succ \<Rightarrow>
          (let s = SuccID r;
               n = needed curES curEF r succ;
               deg = nullish (indegree st s) 0 - 1;
               st' = st\<lparr>pending := (pending st)(s \<mapsto>
                            (case pending st s of Some prev \<Rightarrow> max prev n | None \<Rightarrow> n)),
                        indegree := (indegree st)(s \<mapsto> deg)\<rparr>
           in if deg = 0 then st'\<lparr>queue := sortQueue (idMap st) (queue st @ [s])\<rparr>
              else st'))"

definition startOf :: "rat \<Rightarrow> rat option \<Rightarrow> task \<Rightarrow> rat" where
  \<comment> \<open>\<open>Number.isFinite(startReq) ? Math.max(startReq, current.baseES ?? defaultStart)
      : current.baseES ?? defaultStart\<close>\<close>
  "startOf ds startReq current =
     (case startReq of
        Some req \<Rightarrow> max req (nullish (baseES current) ds)
      | None \<Rightarrow> nullish (baseES current) ds)"

definition schedule :: "rat \<Rightarrow> task \<Rightarrow> task" where
  \<comment> \<open>\<open>current.ES = start; current.EF = current.ES + current.duration * DAY_MS\<close>\<close>
  "schedule start current =
     current\<lparr>task_ES := Some start, task_EF := Some (start + duration current * DAY_MS)\<rparr>"

definition popTask :: "rat \<Rightarrow> rel list \<Rightarrow> fwd \<Rightarrow> fwd" where
  \<comment> \<open>One turn of \<open>while (queue.length)\<close>. The queue only ever holds keys of \<open>idMap\<close>;
      a key without an object would just be dropped.\<close>
  "popTask ds edges st =
     (case queue st of
        [] \<Rightarrow> st
      | c # q \<Rightarrow>
          (case map_of (idMap st) c of
             None \<Rightarrow> st\<lparr>queue := q\<rparr>
           | Some current \<Rightarrow>
               (let start = startOf ds (pending st c) current
                in fold (relaxEdge start (start + duration current * DAY_MS)) (succMap edges c)
                     (st\<lparr>queue := q, topo := topo st @ [c],
                         idMap := AList.update c (schedule start current) (idMap st)\<rparr>))))"

definition potential :: "fwd \<Rightarrow> nat" where
  \<comment> \<open>Ready activities plus the edges still to be taken off the in-degrees.\<close>
  "potential st =
     length (queue st) +
     sum_list (map (\<lambda>i. nat (nullish (indegree st i) 0)) (map fst (idMap st)))"

subsection \<open>The forward loop terminates\<close>

text \<open>
  Every turn of the loop takes one key off the queue, and an edge puts a key on the queue
  only when it takes the last unit off that key's in-degree: \<open>potential\<close> falls with
  every turn, whatever the state, cyclic networks included.
\<close>

lemma sum_list_le_strict:
  fixes f g :: "'a \<Rightarrow> nat"
  assumes "s \<in> set xs" "f s < g s" "\<And>x. x \<in> set xs \<Longrightarrow> f x \<le> g x"
  shows "sum_list (map f xs) < sum_list (map g xs)"
  using assms
proof (induction xs)
  case Nil then show ?case by simp
next
  case (Cons a xs)
  have le: "sum_list (map f xs) \<le> sum_list (map g xs)"
    by (rule sum_list_mono) (simp add: Cons.prems(3))
  show ?case
  proof (cases "a = s")
    case True
    then show ?thesis using Cons.prems(2) le by simp
  next
    case False
    then have "s \<in> set xs" using Cons.prems(1) by simp
    then have "sum_list (map f xs) < sum_list (map g xs)"
      using Cons.IH Cons.prems by simp
    moreover have "f a \<le> g a" using Cons.prems(3) by simp
    ultimately show ?thesis by simp
  qed
qed

lemma relaxEdge_idMap: "idMap (relaxEdge es ef r st) = idMap st"
  by (simp add: relaxEdge_def Let_def split: option.splits)

lemma relaxEdge_potential: "potential (relaxEdge es ef r st) \<le> potential st"
proof (cases "map_of (idMap st) (SuccID r)")
  case None
  then show ?thesis by (simp add: relaxEdge_def)
next
  case (Some succ)
  then have mem: "SuccID r \<in> set (map fst (idMap st))"
    by (metis map_of_eq_None_iff option.distinct(1) set_map)
  let ?d = "nullish (indegree st (SuccID r)) 0"
  show ?thesis
  proof (cases "?d - 1 = 0")
    case True
    have "sum_list (map (\<lambda>i. nat (nullish (((indegree st)(SuccID r \<mapsto> ?d - 1)) i) 0)) (map fst (idMap st)))
        < sum_list (map (\<lambda>i. nat (nullish (indegree st i) 0)) (map fst (idMap st)))"
      by (rule sum_list_le_strict [OF mem]) (use True in \<open>auto simp: nullish_def\<close>)
    then show ?thesis using Some True
      by (simp add: relaxEdge_def Let_def potential_def sortQueue_def)
  next
    case False
    have "sum_list (map (\<lambda>i. nat (nullish (((indegree st)(SuccID r \<mapsto> ?d - 1)) i) 0)) (map fst (idMap st)))
        \<le> sum_list (map (\<lambda>i. nat (nullish (indegree st i) 0)) (map fst (idMap st)))"
      by (rule sum_list_mono) (auto simp: nullish_def)
    then show ?thesis using Some False
      by (simp add: relaxEdge_def Let_def potential_def)
  qed
qed

lemma fold_relaxEdge_potential: "potential (fold (relaxEdge es ef) rs st) \<le> potential st"
proof (induction rs arbitrary: st)
  case Nil show ?case by simp
next
  case (Cons r rs)
  have "potential (fold (relaxEdge es ef) rs (relaxEdge es ef r st)) \<le> potential (relaxEdge es ef r st)"
    by (rule Cons.IH)
  also have "\<dots> \<le> potential st" by (rule relaxEdge_potential)
  finally show ?case by simp
qed

lemma popTask_potential:
  assumes "queue st \<noteq> []"
  shows "potential (popTask ds edges st) < potential st"
proof -
  obtain c q where cq: "queue st = c # q" using assms by (cases "queue st") auto
  show ?thesis
  proof (cases "map_of (idMap st) c")
    case None
    then show ?thesis using cq by (simp add: popTask_def potential_def)
  next
    case (Some current)
    then have mem: "c \<in> set (map fst (idMap st))"
      by (metis map_of_eq_None_iff option.distinct(1) set_map)
    define start where "start = startOf ds (pending st c) current"
    define st1 where "st1 = st\<lparr>queue := q, topo := topo st @ [c],
        idMap := AList.update c (schedule start current) (idMap st)\<rparr>"
    have "potential st1 < potential st"
      using mem cq by (simp add: st1_def potential_def update_keys)
    moreover have "popTask ds edges st =
        fold (relaxEdge start (start + duration current * DAY_MS)) (succMap edges c) st1"
      using cq Some by (simp add: popTask_def st1_def start_def Let_def)
    ultimately show ?thesis
      using fold_relaxEdge_potential le_less_trans by metis
  qed
qed

function forwardLoop :: "rat \<Rightarrow> rel list \<Rightarrow> fwd \<Rightarrow> fwd" where
  "forwardLoop ds edges st =
     (if queue st = [] then st else forwardLoop ds edges (popTask ds edges st))"
  by pat_completeness auto
termination
  by (relation "measure (\<lambda>(ds, edges, st). potential st)") (simp_all add: popTask_potential)

declare forwardLoop.simps [simp del]

subsection \<open>After the loop: fallback, backward pass, floats, output\<close>

datatype limit = Infinity | Finite rat | NaN

definition minLimit :: "limit \<Rightarrow> rat option \<Rightarrow> limit" where
  \<comment> \<open>\<open>Math.min(limit, v)\<close>, where an undefined operand makes the result \<open>NaN\<close>.\<close>
  "minLimit l v =
     (case v of
        None \<Rightarrow> NaN
      | Some x \<Rightarrow> (case l of Infinity \<Rightarrow> Finite x | Finite y \<Rightarrow> Finite (min y x) | NaN \<Rightarrow> NaN))"

definition fallbackTask :: "rat \<Rightarrow> task \<Rightarrow> task" where
  \<comment> \<open>\<open>if (!Number.isFinite(task.ES)) { task.ES = ...; task.EF = ... }\<close>\<close>
  "fallbackTask ds t =
     (case task_ES t of
        Some e \<Rightarrow> t
      | None \<Rightarrow>
          (let es = nullish (baseES t) ds
           in t\<lparr>task_ES := Some es, task_EF := Some (es + duration t * DAY_MS)\<rparr>))"

definition topoOrderOf :: "int list \<Rightarrow> idmap \<Rightarrow> int list" where
  \<comment> \<open>\<open>topo.slice()\<close>, then every key of \<open>idMap\<close> it does not include yet.\<close>
  "topoOrderOf tp m =
     fold (\<lambda>i acc. if i \<in> set acc then acc else acc @ [i]) (map fst m) tp"

definition projectFinishOf :: "rat \<Rightarrow> idmap \<Rightarrow> int list \<Rightarrow> rat" where
  "projectFinishOf ds m order =
     fold (\<lambda>i mx. case map_of m i of
                     None \<Rightarrow> mx
                   | Some t \<Rightarrow> max mx (nullish (task_EF t) (nullish (baseEF t) mx)))
       order ds"

definition succStart :: "rat \<Rightarrow> task \<Rightarrow> rat option" where
  \<comment> \<open>\<open>succ.ES ?? succ.baseES ?? projectFinish\<close>\<close>
  "succStart pf succ = Some (nullish (task_ES succ) (nullish (baseES succ) pf))"

definition succFinish :: "task \<Rightarrow> rat option" where
  \<comment> \<open>\<open>succ.EF ?? (succ.ES + succ.duration * DAY_MS)\<close>\<close>
  "succFinish succ =
     (case task_EF succ of
        Some e \<Rightarrow> Some e
      | None \<Rightarrow> map_option (\<lambda>s. s + duration succ * DAY_MS) (task_ES succ))"

definition limitStep :: "rat \<Rightarrow> rel \<Rightarrow> task \<Rightarrow> limit \<times> limit \<Rightarrow> limit \<times> limit" where
  \<comment> \<open>One outgoing edge of the backward pass, with its successor: the new
      \<open>(lfLimit, lsLimit)\<close>.\<close>
  "limitStep pf r succ lims =
     (let lagMs = Lag_d r * DAY_MS; lfLimit = fst lims; lsLimit = snd lims
      in if RelType r = ''FS''
           then (minLimit lfLimit (map_option (\<lambda>x. x - lagMs) (succStart pf succ)), lsLimit)
         else if RelType r = ''FF''
           then (minLimit lfLimit (map_option (\<lambda>x. x - lagMs) (succFinish succ)), lsLimit)
         else if RelType r = ''SS''
           then (lfLimit, minLimit lsLimit (map_option (\<lambda>x. x - lagMs) (succStart pf succ)))
         else if RelType r = ''SF''
           then (lfLimit, minLimit lsLimit (map_option (\<lambda>x. x - lagMs) (succFinish succ)))
         else (lfLimit, lsLimit))"

definition lateLimits :: "rat \<Rightarrow> idmap \<Rightarrow> rel list \<Rightarrow> limit \<times> limit" where
  \<comment> \<open>The inner loop of the backward pass: \<open>(lfLimit, lsLimit)\<close>.\<close>
  "lateLimits pf m outgoing =
     fold (\<lambda>r lims. case map_of m (SuccID r) of
                       None \<Rightarrow> lims
                     | Some succ \<Rightarrow> limitStep pf r succ lims)
       outgoing (Infinity, Infinity)"

definition lateDates :: "rat \<Rightarrow> idmap \<Rightarrow> rel list \<Rightarrow> task \<Rightarrow> rat \<times> rat" where
  \<comment> \<open>\<open>(ls, lf)\<close> as the body of \<open>for (const id of reverse)\<close> computes them. The two
      repairs of a non-finite \<open>lf\<close> or \<open>ls\<close> that close the body cannot fire: both are
      numbers here.\<close>
  "lateDates pf m outgoing t =
     (let (lfLimit, lsLimit) = lateLimits pf m outgoing;
          lf0 = (case lfLimit of
                   Finite l \<Rightarrow> l
                 | _ \<Rightarrow> max (nullish (task_EF t) (nullish (baseEF t) pf)) pf);
          ls0 = lf0 - duration t * DAY_MS
      in case lsLimit of
           Finite l \<Rightarrow> (min ls0 l, min ls0 l + duration t * DAY_MS)
         | _ \<Rightarrow> (ls0, lf0))"

definition backwardTask :: "rat \<Rightarrow> rel list \<Rightarrow> int \<Rightarrow> idmap \<Rightarrow> idmap" where
  \<comment> \<open>\<open>task.LF = lf; task.LS = ls\<close> for the activity \<open>i\<close>.\<close>
  "backwardTask pf edges i m =
     (case map_of m i of
        None \<Rightarrow> m
      | Some t \<Rightarrow>
          (let (ls, lf) = lateDates pf m (succMap edges i) t
           in AList.update i (t\<lparr>task_LF := Some lf, task_LS := Some ls\<rparr>) m))"

definition backwardPass :: "rat \<Rightarrow> rel list \<Rightarrow> int list \<Rightarrow> idmap \<Rightarrow> idmap" where
  "backwardPass pf edges order m = fold (backwardTask pf edges) (rev order) m"

definition earlyStep :: "rat \<Rightarrow> rel \<Rightarrow> task \<Rightarrow> limit \<Rightarrow> limit" where
  \<comment> \<open>One outgoing edge of the float loop, with its successor: the new
      \<open>minConstraint\<close>.\<close>
  "earlyStep pf r succ minConstraint =
     (let lagMs = Lag_d r * DAY_MS
      in if RelType r = ''FS''
           then minLimit minConstraint (map_option (\<lambda>x. x - lagMs) (succStart pf succ))
         else if RelType r = ''FF''
           then minLimit minConstraint (map_option (\<lambda>x. x - lagMs) (succFinish succ))
         else minConstraint)"

definition earlyLimit :: "rat \<Rightarrow> idmap \<Rightarrow> rel list \<Rightarrow> limit" where
  \<comment> \<open>\<open>minConstraint\<close> of the float loop: outgoing FS and FF edges only.\<close>
  "earlyLimit pf m outgoing =
     fold (\<lambda>r minConstraint.
             case map_of m (SuccID r) of
               None \<Rightarrow> minConstraint
             | Some succ \<Rightarrow> earlyStep pf r succ minConstraint)
       outgoing Infinity"

definition floats :: "rat \<Rightarrow> rat \<Rightarrow> idmap \<Rightarrow> rel list \<Rightarrow> task \<Rightarrow> int \<times> int option" where
  \<comment> \<open>Total float and free float, as the last \<open>idMap.forEach\<close> computes them.\<close>
  "floats ds pf m outgoing t =
     (let tfMs = nullish (task_LS t) (nullish (task_ES t) ds) - nullish (task_ES t) ds;
          tf = mathRound (tfMs / DAY_MS)
      in (tf,
          case earlyLimit pf m outgoing of
            Finite c \<Rightarrow> map_option (\<lambda>e. max 0 (mathRound ((c - e) / DAY_MS))) (succFinish t)
          | _ \<Rightarrow> Some (max 0 tf)))"

definition floatTask :: "rat \<Rightarrow> rat \<Rightarrow> rel list \<Rightarrow> int \<Rightarrow> idmap \<Rightarrow> idmap" where
  \<comment> \<open>\<open>task.TotalFloat_d = ...; task.FreeFloat_d = ...\<close> for the activity \<open>i\<close>.\<close>
  "floatTask ds pf edges i m =
     (case map_of m i of
        None \<Rightarrow> m
      | Some t \<Rightarrow>
          (let (tf, ff) = floats ds pf m (succMap edges i) t
           in AList.update i (t\<lparr>task_TotalFloat_d := Some (of_int tf),
                                task_FreeFloat_d := map_option of_int ff\<rparr>) m))"

definition floatPass :: "rat \<Rightarrow> rat \<Rightarrow> rel list \<Rightarrow> idmap \<Rightarrow> idmap" where
  "floatPass ds pf edges m = fold (floatTask ds pf edges) (map fst m) m"

definition outRow :: "idmap \<Rightarrow> 'a row_scheme \<Rightarrow> 'a row_scheme" where
  \<comment> \<open>The callback of the final \<open>rows.map\<close>.\<close>
  "outRow m r =
     (case ActivityID r of
        None \<Rightarrow> r
      | Some i \<Rightarrow>
          (case map_of m i of
             None \<Rightarrow> r
           | Some t \<Rightarrow>
               r\<lparr>ES := (case toISODate (task_ES t) of Some d \<Rightarrow> Some d | None \<Rightarrow> ES r),
                 EF := (case toISODate (task_EF t) of Some d \<Rightarrow> Some d | None \<Rightarrow> EF r),
                 LS := (case toISODate (case task_LS t of Some x \<Rightarrow> Some x | None \<Rightarrow> baseLS t)
                          of Some d \<Rightarrow> Some d | None \<Rightarrow> LS r),
                 LF := (case toISODate (case task_LF t of Some x \<Rightarrow> Some x | None \<Rightarrow> baseLF t)
                          of Some d \<Rightarrow> Some d | None \<Rightarrow> LF r),
                 DurDays := Some (of_int (mathRound (duration t * 100)) / 100),
                 TotalFloat_d := (case task_TotalFloat_d t of Some x \<Rightarrow> Some x
                                  | None \<Rightarrow> TotalFloat_d r),
                 FreeFloat_d := (case task_FreeFloat_d t of Some x \<Rightarrow> Some x
                                 | None \<Rightarrow> FreeFloat_d r)\<rparr>))"

definition initState :: "idmap \<Rightarrow> rel list \<Rightarrow> fwd" where
  \<comment> \<open>The state in which the \<open>while\<close> loop starts.\<close>
  "initState m edges =
     (let indeg = initIndegree m edges
      in \<lparr> idMap = m,
           queue = sortQueue m (filter (\<lambda>i. nullish (indeg i) 0 = 0) (map fst m)),
           pending = Map.empty, indegree = indeg, topo = [] \<rparr>)"

definition forwardPass :: "rat \<Rightarrow> idmap \<Rightarrow> rel list \<Rightarrow> fwd" where
  "forwardPass ds m edges = forwardLoop ds edges (initState m edges)"

definition solve :: "rat \<Rightarrow> idmap \<Rightarrow> rel list \<Rightarrow> idmap" where
  \<comment> \<open>Everything between building the network and the final \<open>rows.map\<close>.\<close>
  "solve ds m edges =
     (let st = forwardPass ds m edges;
          m1 = map (\<lambda>(i, t). (i, fallbackTask ds t)) (idMap st);
          order = topoOrderOf (topo st) m1;
          pf = projectFinishOf ds m1 order;
          m2 = backwardPass pf edges order m1
      in floatPass ds pf edges m2)"

definition simulateScenario ::
  "int \<Rightarrow> 'a row_scheme list \<Rightarrow> rel list \<Rightarrow> scenario option \<Rightarrow> 'a row_scheme list" where
  \<comment> \<open>\<open>now\<close> is what \<open>Date.now()\<close> returns during the call.\<close>
  "simulateScenario now rs rels impact =
     (if rs = [] then []
      else if buildIdMap rs = [] then rs
      else
        (let ds = defaultStart now (buildIdMap rs);
             m = initTasks ds rs impact;
             edges = networkEdges m rels
         in map (outRow (solve ds m edges)) rs))"

section \<open>Example data\<close>

text \<open>
  Two states of the component: the one it starts in (the \<open>useState\<close> defaults), and one
  with an activity chosen and ten scenarios saved.
\<close>

definition initialView :: "row view" where
  "initialView =
     \<lparr> viewRows = [], simRows = None, scenarioActivity = '''', scenarioMode = ''delay'',
       scenarioDays = 10, scenarioTitle = '''', scenarioLibrary = [],
       activeScenario = None, scenarioStatus = '''' \<rparr>"

definition fullView :: "row view" where
  "fullView =
     initialView\<lparr> scenarioActivity := ''101'',
       scenarioLibrary :=
         map (\<lambda>k. \<lparr> scenario_id = ''scenario-'' @ showNat k, title = ''Scenario '' @ showNat k,
                     activityId = Some 101, deltaDays = of_int k, createdAt = k \<rparr>)
           [1, 2, 3, 4, 5, 6, 7, 8, 9, 10] \<rparr>"

text \<open>
  Activities and links for the networks used below: the two-activity chain of the
  specification followed by a row without an id, a network with a cycle, and a network in
  which no activity has a baseline early start.
\<close>

definition activity :: "int \<Rightarrow> string \<Rightarrow> int option \<Rightarrow> rat \<Rightarrow> row" where
  \<comment> \<open>An activity with its duration and, if any, the day of its baseline early start.\<close>
  "activity i name es d =
     \<lparr> ActivityID = Some i, TaskName = name, ES = map_option Day es, EF = None, LS = None,
       LF = None,
       DurDays = Some d, TotalFloat_d = None, FreeFloat_d = None, Milestone = False \<rparr>"

definition link :: "int \<Rightarrow> int \<Rightarrow> string \<Rightarrow> rat \<Rightarrow> rel" where
  "link p s ty lag = \<lparr> PredID = p, SuccID = s, RelType = ty, Lag_d = lag \<rparr>"

definition solvedRow :: "int \<Rightarrow> string \<Rightarrow> int \<Rightarrow> int \<Rightarrow> int \<Rightarrow> int \<Rightarrow> rat \<Rightarrow> rat \<Rightarrow> rat \<Rightarrow> row" where
  \<comment> \<open>A record with its four dates as day numbers, then the duration and the floats.\<close>
  "solvedRow i name es ef ls lf d tf ff =
     \<lparr> ActivityID = Some i, TaskName = name, ES = Some (Day es), EF = Some (Day ef),
       LS = Some (Day ls), LF = Some (Day lf), DurDays = Some d, TotalFloat_d = Some tf,
       FreeFloat_d = Some ff, Milestone = False \<rparr>"

definition noteRow :: row where
  "noteRow =
     \<lparr> ActivityID = None, TaskName = ''Summary'', ES = Some (Day 3), EF = Some (Day 20), LS = None,
       LF = None, DurDays = Some 9, TotalFloat_d = None, FreeFloat_d = None,
       Milestone = False \<rparr>"

definition chainRows :: "row list" where
  "chainRows = [activity 1 ''A'' (Some 0) 5, activity 2 ''B'' None 3, noteRow]"

definition chainRels :: "rel list" where
  "chainRels = [link 1 2 ''FS'' 0]"



definition undatedRows :: "row list" where
  "undatedRows = [activity 1 ''A'' None 10]"



text \<open>
  A network with float on one branch, a network whose target is held by an FF edge and
  drives an SS edge, and the impact object of a scenario.
\<close>

definition slackRows :: "row list" where
  "slackRows = [activity 1 ''A'' (Some 0) 1, activity 2 ''B'' (Some 0) 1,
                activity 3 ''C'' (Some 0) 1, activity 4 ''D'' (Some 0) 10]"

definition slackRels :: "rel list" where
  "slackRels = [link 1 2 ''FS'' 0, link 2 3 ''FS'' 0, link 4 3 ''FS'' 0]"





section \<open>Views of the network\<close>




definition view :: "(task \<Rightarrow> task) \<Rightarrow> idmap \<Rightarrow> idmap" where
  "view f m = map (\<lambda>(i, t). (i, f t)) m"










subsection \<open>A rule for the forward loop\<close>


subsection \<open>What each pass leaves alone\<close>













subsection \<open>Fallback\<close>






lemma fallbackTask_unset:
  "task_ES t = None \<Longrightarrow> task_ES (fallbackTask ds t) = Some (nullish (baseES t) ds)"
  by (simp add: fallbackTask_def Let_def)


subsection \<open>Backward pass and floats\<close>


lemma backwardTask_lookup:
  "map_of (backwardTask pf edges i m) j =
     (if j = i
      then map_option
             (\<lambda>t. t\<lparr>task_LF := Some (snd (lateDates pf m (succMap edges i) t)),
                    task_LS := Some (fst (lateDates pf m (succMap edges i) t))\<rparr>)
             (map_of m i)
      else map_of m j)"
  by (simp add: backwardTask_def update_conv' split: option.splits prod.splits)




lemma backwardTask_defined:
  "map_of (backwardTask pf edges i m) j = Some t \<Longrightarrow> \<exists>u. map_of m j = Some u"
  by (auto simp: backwardTask_lookup split: if_splits)








subsection \<open>The solved network\<close>























section \<open>From rows to the solved network\<close>

text \<open>
  Names for the values that \<open>simulateScenario\<close> binds on its way: the default epoch, the
  network before the passes, the state of the forward loop at its exit, and the network
  after the float loop. \<open>frame\<close> blanks the seven fields the final \<open>rows.map\<close> writes.
\<close>

definition frame :: "'a row_scheme \<Rightarrow> 'a row_scheme" where
  "frame r = r\<lparr>ES := None, EF := None, LS := None, LF := None, DurDays := None,
               TotalFloat_d := None, FreeFloat_d := None\<rparr>"

definition epochOf :: "int \<Rightarrow> 'a row_scheme list \<Rightarrow> rat" where
  "epochOf now rs = defaultStart now (buildIdMap rs)"

definition networkOf :: "int \<Rightarrow> 'a row_scheme list \<Rightarrow> scenario option \<Rightarrow> idmap" where
  "networkOf now rs impact = initTasks (epochOf now rs) rs impact"


definition solved ::
  "int \<Rightarrow> 'a row_scheme list \<Rightarrow> rel list \<Rightarrow> scenario option \<Rightarrow> idmap" where
  "solved now rs rels impact =
     solve (epochOf now rs) (networkOf now rs impact)
       (networkEdges (networkOf now rs impact) rels)"

lemma simulateScenario_unfold:
  "simulateScenario now rs rels impact =
     (if rs = [] then [] else if buildIdMap rs = [] then rs
      else map (outRow (solved now rs rels impact)) rs)"
  by (simp add: simulateScenario_def solved_def networkOf_def epochOf_def Let_def)

subsection \<open>Building the network\<close>












section \<open>Instants and days\<close>

text \<open>
  The first and the last day of the four-digit years in the calendar, and the bounds that
  tie the day of an instant to the instant: cutting the fraction of a millisecond and the
  time of day moves an instant by less than a day and a millisecond.
\<close>

lemma civil_bounds:
  "civil (- 719528) = (0, 1, 1)" "civil (- 719529) = (- 1, 12, 31)"
  "civil 2932896 = (9999, 12, 31)" "civil 2932897 = (10000, 1, 1)"
  by code_simp+


lemma DAY_MS_eq: "DAY_MS = of_int 86400000"
  by (simp add: DAY_MS_def)

definition inCalendar :: "rat \<Rightarrow> bool" where
  \<comment> \<open>The instant lies in a year from 0000 to 9999, where the first ten characters of
      \<open>toISOString()\<close> are the date-only text.\<close>
  "inCalendar x \<longleftrightarrow> fourDigitYear (dayOf x)"

lemma trunc_bounds:
  fixes x :: rat
  shows "x - 1 < of_int (if x \<ge> 0 then \<lfloor>x\<rfloor> else \<lceil>x\<rceil>)"
    and "of_int (if x \<ge> 0 then \<lfloor>x\<rfloor> else \<lceil>x\<rceil>) < x + 1"
  by (auto; linarith)+

lemma dayOf_upper: "of_int (dayOf x) * DAY_MS < x + 1"
proof -
  let ?t = "if x \<ge> 0 then \<lfloor>x\<rfloor> else \<lceil>x\<rceil>"
  have "dayOf x * 86400000 \<le> ?t" unfolding dayOf_def by (simp del: of_int_floor_cancel)
  then have "(of_int (dayOf x * 86400000) :: rat) \<le> of_int ?t" by (simp only: of_int_le_iff)
  then show ?thesis using trunc_bounds(2) [of x] by (simp add: DAY_MS_eq)
qed

lemma dayOf_lower: "x - DAY_MS < of_int (dayOf x) * DAY_MS"
proof -
  let ?t = "if x \<ge> 0 then \<lfloor>x\<rfloor> else \<lceil>x\<rceil>"
  have "?t mod 86400000 < 86400000" by simp
  moreover have "?t = dayOf x * 86400000 + ?t mod 86400000" unfolding dayOf_def by simp
  ultimately have "?t - 86400000 + 1 \<le> dayOf x * 86400000" by linarith
  then have "(of_int (?t - 86400000 + 1) :: rat) \<le> of_int (dayOf x * 86400000)"
    by (simp only: of_int_le_iff)
  then show ?thesis using trunc_bounds(1) [of x] by (simp add: DAY_MS_eq)
qed


lemma dayOf_whole: "dayOf (of_int n) = n div 86400000"
  by (simp add: dayOf_def)

lemma dayOf_day: "dayOf (of_int n * DAY_MS) = n"
proof -
  have e: "of_int n * DAY_MS = (of_int (n * 86400000) :: rat)" by (simp add: DAY_MS_eq)
  show ?thesis unfolding e dayOf_whole by simp
qed



lemma fourDigitYear_range: "fourDigitYear n \<Longrightarrow> \<bar>of_int n * DAY_MS\<bar> \<le> MAX_TIME"
proof -
  assume "fourDigitYear n"
  then have "- 719528 \<le> n" "n \<le> 2932896" by (simp_all add: fourDigitYear_def)
  then have "(of_int (- 719528) :: rat) \<le> of_int n" "(of_int n :: rat) \<le> of_int 2932896"
    by (simp_all only: of_int_le_iff)
  then show ?thesis by (simp add: DAY_MS_def MAX_TIME_def abs_le_iff)
qed

lemma inCalendar_range: "inCalendar x \<Longrightarrow> \<bar>x\<bar> \<le> MAX_TIME"
proof -
  assume "inCalendar x"
  then have "- 719528 \<le> dayOf x" "dayOf x \<le> 2932896"
    by (simp_all add: inCalendar_def fourDigitYear_def)
  then have "(of_int (- 719528) :: rat) \<le> of_int (dayOf x)" "(of_int (dayOf x) :: rat) \<le> of_int 2932896"
    by (simp_all only: of_int_le_iff)
  then show ?thesis using dayOf_upper [of x] dayOf_lower [of x]
    by (simp add: DAY_MS_def MAX_TIME_def abs_le_iff)
qed

lemma toISODate_calendar: "inCalendar x \<Longrightarrow> toISODate (Some x) = Some (Day (dayOf x))"
  using inCalendar_range [of x] by (simp add: toISODate_def isoDate_def inCalendar_def)

lemma parseDate_Day: "fourDigitYear n \<Longrightarrow> parseDate (Some (Day n)) = Some (of_int n * DAY_MS)"
  by (simp add: parseDate_def)

lemma inCalendar_day: "fourDigitYear n \<Longrightarrow> inCalendar (of_int n * DAY_MS)"
  by (simp add: inCalendar_def dayOf_day)

lemma parseDate_toISODate:
  "fourDigitYear n \<Longrightarrow> toISODate (parseDate (Some (Day n))) = Some (Day n)"
  by (simp add: parseDate_Day toISODate_calendar inCalendar_day dayOf_day)

subsection \<open>The output rows\<close>

definition emit :: "rat \<Rightarrow> date option \<Rightarrow> date option" where
  \<comment> \<open>\<open>toISODate(x) ?? old\<close>: the text of the instant, the old field where the instant
      is no valid \<open>Date\<close>.\<close>
  "emit x old = (case toISODate (Some x) of Some d \<Rightarrow> Some d | None \<Rightarrow> old)"

lemma emit_calendar: "inCalendar x \<Longrightarrow> emit x old = Some (Day (dayOf x))"
  by (simp add: emit_def toISODate_calendar)

lemma emit_valid: "\<bar>x\<bar> \<le> MAX_TIME \<Longrightarrow> emit x old = Some (isoDate (dayOf x))"
  by (simp add: emit_def toISODate_def)

lemma outRow_frame: "frame (outRow m r) = frame r"
  by (simp add: outRow_def frame_def split: option.splits)

lemma outRow_noid: "ActivityID r = None \<Longrightarrow> outRow m r = r"
  by (simp add: outRow_def)



lemma chain_solved:
  "simulateScenario 0 chainRows chainRels None =
     [solvedRow 1 ''A'' 0 5 0 5 5 0 0, solvedRow 2 ''B'' 5 8 5 8 3 0 0, noteRow]"
  by code_simp



section \<open>Early and late dates agree with the duration\<close>






section \<open>Determinism and the clock\<close>

definition hasBaselineStart :: "'a row_scheme list \<Rightarrow> bool" where
  "hasBaselineStart rs \<longleftrightarrow> list_ex (\<lambda>(i, t). baseES t \<noteq> None) (buildIdMap rs)"

lemma defaultStart_fold_Some:
  assumes "acc \<noteq> None \<or> list_ex (\<lambda>(i, t). baseES t \<noteq> None) m"
  shows "fold (\<lambda>(i, t) acc.
                case baseES t of
                  Some b \<Rightarrow> Some (case acc of None \<Rightarrow> b | Some a \<Rightarrow> min a b)
                | None \<Rightarrow> acc) m acc \<noteq> None"
  using assms
proof (induction m arbitrary: acc)
  case Nil
  then show ?case by simp
next
  case (Cons p m)
  obtain i t where p: "p = (i, t)" by (cases p)
  show ?case
  proof (cases "baseES t")
    case None
    then show ?thesis using Cons.prems p Cons.IH [of acc] by auto
  next
    case (Some b)
    then show ?thesis
      using p Cons.IH [of "Some (case acc of None \<Rightarrow> b | Some a \<Rightarrow> min a b)"] by simp
  qed
qed

lemma defaultStart_clock:
  assumes "list_ex (\<lambda>(i, t). baseES t \<noteq> None) m"
  shows "defaultStart now1 m = defaultStart now2 m"
proof -
  obtain x where "fold (\<lambda>(i, t) acc.
                case baseES t of
                  Some b \<Rightarrow> Some (case acc of None \<Rightarrow> b | Some a \<Rightarrow> min a b)
                | None \<Rightarrow> acc) m None = Some x"
    using defaultStart_fold_Some [of None m] assms by auto
  then show ?thesis by (simp add: defaultStart_def nullish_def)
qed

text \<open>
  C5, as stated, fails where no activity of the network has a baseline early start: the
  default epoch is then \<open>Date.now()\<close>, and two calls a day apart return different dates.
\<close>

theorem simulateScenario_clock_counterexample:
  "simulateScenario 0 undatedRows [] None \<noteq> simulateScenario 86400000 undatedRows [] None"
  by code_simp

text \<open>
  C5, amended: when some activity of the network has a baseline early start, the result
  does not depend on the clock, so two calls with the same rows, edges and impact return
  the same schedule whenever they are made. (Two calls that read the same clock value
  return the same schedule in any case: the result is a function of the clock value, the
  rows, the edges and the impact.)
\<close>

theorem simulateScenario_deterministic:
  assumes "hasBaselineStart rs"
  shows "simulateScenario now1 rs rels impact = simulateScenario now2 rs rels impact"
proof -
  have "defaultStart now1 (buildIdMap rs) = defaultStart now2 (buildIdMap rs)"
    using assms unfolding hasBaselineStart_def by (rule defaultStart_clock)
  then show ?thesis by (simp add: simulateScenario_def)
qed

theorem simulateScenario_deterministic_witness:
  "hasBaselineStart chainRows \<and>
   simulateScenario 0 chainRows chainRels None
     = simulateScenario 1762128000000 chainRows chainRels None"
proof -
  have h: "hasBaselineStart chainRows" by code_simp
  show ?thesis using h simulateScenario_deterministic [OF h, of 0 chainRels None 1762128000000]
    by simp
qed

subsection \<open>In-degree\<close>










subsection \<open>Where a working object comes from\<close>





section \<open>Cyclic networks\<close>



section \<open>The backward pass reads early dates\<close>

text \<open>
  C1. The claim describes the backward pass of the critical path method: the late finish
  of an activity is the least of its successors' LATE starts (FS) or late finishes (FF),
  less the lag. The loop of the code walks the activities in reverse topological order, as
  that computation needs, but reads \<open>succ.ES\<close> and \<open>succ.EF\<close>, the successors' EARLY dates.
  In the network A \<rightarrow> B \<rightarrow> C \<leftarrow> D (all FS, lag 0; A, B, C take one day, D ten) the
  late start of B is day 9, so the late finish of A should be day 9; the code returns day
  1, the early start of B, and reports A as critical (total float 0) although it has eight
  days of float.
\<close>

theorem backward_pass_early_dates:
  "simulateScenario 0 slackRows slackRels None =
     [solvedRow 1 ''A'' 0 1 0 1 1 0 0, solvedRow 2 ''B'' 1 2 9 10 1 8 8,
      solvedRow 3 ''C'' 10 11 10 11 1 0 0, solvedRow 4 ''D'' 0 10 0 10 10 0 0]"
  by code_simp

section \<open>Project finish and the scenario delta\<close>



section \<open>A longer duration and the early finishes\<close>

































subsection \<open>From the early finishes to the project finish\<close>




definition finishDay :: "'a row_scheme \<Rightarrow> int option" where
  "finishDay r = map_option dayOf (parseDate (EF r))"





lemma finishDay_emit: "inCalendar e \<Longrightarrow> finishDay (r\<lparr>EF := emit e old\<rparr>) = Some (dayOf e)"
  by (simp add: finishDay_def emit_calendar parseDate_def inCalendar_def dayOf_day)







section \<open>The queue discipline of the forward loop\<close>


definition into :: "rel list \<Rightarrow> int \<Rightarrow> rel list" where
  "into rs i = filter (\<lambda>r. SuccID r = i) rs"












lemma initIndegree_fold:
  "nullish (fold (\<lambda>r d. d(SuccID r \<mapsto> nullish (d (SuccID r)) 0 + 1)) E d0 i) 0
     = nullish (d0 i) 0 + int (length (into E i))"
proof (induction E arbitrary: d0)
  case Nil
  show ?case by (simp add: into_def)
next
  case (Cons r E)
  show ?case
    using Cons.IH [of "d0(SuccID r \<mapsto> nullish (d0 (SuccID r)) 0 + 1)"]
    by (simp add: into_def nullish_def)
qed

lemma initIndegree_count: "nullish (initIndegree m E i) 0 = int (length (into E i))"
  unfolding initIndegree_def initIndegree_fold by (simp add: nullish_def)




section \<open>What the forward loop computes\<close>
































section \<open>The forward pass, activity by activity\<close>












lemma initState_seed:
  "queue (initState m E) = sortQueue m (filter (\<lambda>i. into E i = []) (map fst m))"
  by (simp add: initState_def Let_def initIndegree_count)

lemma sortQueue_sorted:
  "sorted (map (\<lambda>i. case map_of m i of Some t \<Rightarrow> nullish (baseES t) 0 | None \<Rightarrow> 0)
             (sortQueue m q))"
  by (simp add: sortQueue_def)



section \<open>The token parser on the documented tokens\<close>

lemma toUpperCase_ab: "toUpperCase ''ab'' = ''AB''"
  by code_simp

lemma parseLinkToken_null: "parseLinkToken None succId = None"
  by (simp add: parseLinkToken_def)

lemma parseLinkToken_empty: "parseLinkToken (Some '''') succId = None"
  by (simp add: parseLinkToken_def trim_def)

lemma parseLinkToken_205FS3:
  "parseLinkToken (Some ''205FS+3'') succId =
     Some \<lparr> PredID = 205, SuccID = succId, RelType = ''FS'', Lag_d = 3 \<rparr>"
  by (simp add: parseLinkToken_def trim_def isSpace_def isDigit_def digitsValue_def
        numberIsFinite_def toUpperCase_def toUpperChar_def relTypes_def lagClause_def Let_def)

lemma parseLinkToken_130m2:
  "parseLinkToken (Some ''130-2'') succId =
     Some \<lparr> PredID = 130, SuccID = succId, RelType = ''FS'', Lag_d = - 2 \<rparr>"
  by (simp add: parseLinkToken_def trim_def isSpace_def isDigit_def digitsValue_def
        numberIsFinite_def toUpperCase_def toUpperChar_def relTypes_def lagClause_def Let_def)

text \<open>
  A token whose trimmed text is not empty and does not start with a digit has an empty
  digit run. \<open>Number("")\<close> is \<open>0\<close>, which is finite, so the guard
  \<open>if (!Number.isFinite(id)) return null\<close> lets it through: the parser answers with an
  edge from activity \<open>0\<close>.
\<close>

lemma parseLinkToken_no_leading_digit:
  assumes "trim tok \<noteq> []" and "\<not> isDigit (hd (trim tok))"
  shows "\<exists>e. parseLinkToken (Some tok) succId = Some e \<and> PredID e = 0 \<and> SuccID e = succId"
proof -
  have "takeWhile isDigit (trim tok) = []"
    using assms by (cases "trim tok") auto
  then show ?thesis
    using assms(1)
    by (simp add: parseLinkToken_def Let_def digitsValue_def numberIsFinite_def)
qed

text \<open>
  C3. The claim wants \<open>null\<close> for every token that does not begin with a digit, and names
  \<open>"abcFS"\<close>. The code returns an edge for it: predecessor \<open>0\<close>, type FS (the two letters
  \<open>ab\<close> are no relationship code), lag \<open>0\<close>.
\<close>

theorem parseLinkToken_abcFS:
  "parseLinkToken (Some ''abcFS'') succId =
     Some \<lparr> PredID = 0, SuccID = succId, RelType = ''FS'', Lag_d = 0 \<rparr>"
  by (simp add: toUpperCase_ab parseLinkToken_def trim_def isSpace_def isDigit_def
        digitsValue_def numberIsFinite_def relTypes_def lagClause_def Let_def)

section \<open>The scenario library keeps at most ten entries\<close>

text \<open>
  C9, as stated, fails where the form is not filled in: \<open>handleSaveScenario\<close> checks the
  form before it checks the capacity. In the state the component starts in (no activity
  chosen, an empty library) nothing is appended.
\<close>

theorem handleSaveScenario_invalid_form:
  "length (scenarioLibrary initialView) < 10 \<and>
   scenarioLibrary (handleSaveScenario 1762128000000 initialView)
     \<noteq> scenarioLibrary initialView @ [newScenario 1762128000000 initialView]"
  by (simp add: initialView_def handleSaveScenario_def scenarioFormValid_def)

text \<open>
  C9, amended: with a valid form, a save into a library of ten (or more) entries changes
  nothing but the status line, which becomes the capacity message; a save into a library of
  fewer than ten appends the new scenario after the existing entries; so a library of at
  most ten entries stays one.
\<close>

theorem handleSaveScenario_capacity:
  assumes "scenarioFormValid v"
  shows "(length (scenarioLibrary v) \<ge> 10 \<longrightarrow>
            handleSaveScenario now v =
              v\<lparr>scenarioStatus :=
                  ''Scenario library full (10). Delete one to add a new scenario.''\<rparr>) \<and>
         (length (scenarioLibrary v) < 10 \<longrightarrow>
            scenarioLibrary (handleSaveScenario now v)
              = scenarioLibrary v @ [newScenario now v]) \<and>
         (length (scenarioLibrary v) \<le> 10 \<longrightarrow>
            length (scenarioLibrary (handleSaveScenario now v)) \<le> 10)"
  using assms by (auto simp: handleSaveScenario_def maxScenariosReached_def Let_def)

theorem handleSaveScenario_capacity_witness:
  "scenarioFormValid fullView \<and> length (scenarioLibrary fullView) = 10 \<and>
   handleSaveScenario 1762128000000 fullView =
     fullView\<lparr>scenarioStatus :=
                ''Scenario library full (10). Delete one to add a new scenario.''\<rparr> \<and>
   scenarioLibrary (handleSaveScenario 1762128000000 fullView) = scenarioLibrary fullView \<and>
   scenarioFormValid (fullView\<lparr>scenarioLibrary := []\<rparr>) \<and>
   scenarioLibrary (handleSaveScenario 1762128000000 (fullView\<lparr>scenarioLibrary := []\<rparr>))
     = [newScenario 1762128000000 (fullView\<lparr>scenarioLibrary := []\<rparr>)]"
proof -
  have v: "scenarioFormValid fullView"
    by (simp add: fullView_def initialView_def scenarioFormValid_def)
  have v': "scenarioFormValid (fullView\<lparr>scenarioLibrary := []\<rparr>)"
    by (simp add: fullView_def initialView_def scenarioFormValid_def)
  have l: "length (scenarioLibrary fullView) = 10"
    by (simp add: fullView_def initialView_def)
  show ?thesis
    using v v' l handleSaveScenario_capacity [OF v, of 1762128000000]
      handleSaveScenario_capacity [OF v', of 1762128000000]
    by simp
qed

section \<open>Objects and the store\<close>

text \<open>
  \<open>simulateScenario\<close> once more, now with the objects it shares. The store is the list of
  all objects; a reference is an index into it, and a new object goes to the end. The
  caller's rows and relationships are arrays of references to row and relationship
  objects. The function creates one working object per row (\<open>row\<close> a reference to the row,
  \<open>id\<close> its number, and the fields of \<open>task\<close>; \<open>idx\<close> is never read and left out) and, at
  the end, the rows of the result and the array that holds them. Every
  \<open>task.field = value\<close> of the source is a write to the store at the reference the source
  holds. The arrays and maps that the function creates and keeps to itself (\<open>tasks\<close>,
  \<open>edges\<close>, \<open>queue\<close>, \<open>topo\<close>, \<open>topoOrder\<close>, \<open>idMap\<close>, \<open>succMap\<close>, \<open>indegree\<close>, \<open>pending\<close>)
  are values as before, except that \<open>idMap\<close> and \<open>tasks\<close> now hold references. What the
  source computes from the objects it reads is computed by the functions above from
  \<open>snapshot\<close>, the contents of the working objects at that moment.
\<close>

datatype 'a obj =
    RowObj "'a row_scheme"
  | RelObj rel
  | ArrObj "nat list"
  | TaskObj nat "int option" task

type_synonym 'a store = "'a obj list"

definition cell :: "'a store \<Rightarrow> nat \<Rightarrow> 'a obj option" where
  "cell h a = (if a < length h then Some (h ! a) else None)"

definition alloc :: "'a obj \<Rightarrow> 'a store \<Rightarrow> 'a store \<times> nat" where
  \<comment> \<open>A new object: the store with it, and its reference.\<close>
  "alloc x h = (h @ [x], length h)"

definition rowAt :: "'a store \<Rightarrow> nat \<Rightarrow> 'a row_scheme option" where
  "rowAt h a = (case cell h a of Some (RowObj r) \<Rightarrow> Some r | _ \<Rightarrow> None)"

definition relAt :: "'a store \<Rightarrow> nat \<Rightarrow> rel option" where
  "relAt h a = (case cell h a of Some (RelObj r) \<Rightarrow> Some r | _ \<Rightarrow> None)"

definition arrAt :: "'a store \<Rightarrow> nat \<Rightarrow> nat list option" where
  "arrAt h a = (case cell h a of Some (ArrObj xs) \<Rightarrow> Some xs | _ \<Rightarrow> None)"

definition blank :: task where
  \<comment> \<open>What reading the fields of something that is no working object gives.\<close>
  "blank =
     \<lparr> duration = 0, baseES = None, baseEF = None, baseLS = None, baseLF = None,
       task_ES = None, task_EF = None, task_LS = None, task_LF = None,
       task_TotalFloat_d = None, task_FreeFloat_d = None \<rparr>"

definition taskAt :: "'a store \<Rightarrow> nat \<Rightarrow> task" where
  "taskAt h a = (case cell h a of Some (TaskObj ra i t) \<Rightarrow> t | _ \<Rightarrow> blank)"

definition setTask :: "nat \<Rightarrow> task \<Rightarrow> 'a store \<Rightarrow> 'a store" where
  \<comment> \<open>A write to fields of the object at \<open>a\<close>; the object becomes a working object with
      these fields, whatever it was.\<close>
  "setTask a t h =
     h[a := (case cell h a of
               Some (TaskObj ra i old) \<Rightarrow> TaskObj ra i t
             | _ \<Rightarrow> TaskObj a None t)]"

definition modTask :: "nat \<Rightarrow> (task \<Rightarrow> task) \<Rightarrow> 'a store \<Rightarrow> 'a store" where
  "modTask a f h = setTask a (f (taskAt h a)) h"

type_synonym ids = "(int \<times> nat) list"

definition snapshot :: "'a store \<Rightarrow> ids \<Rightarrow> idmap" where
  \<comment> \<open>\<open>idMap\<close> with its working objects read from the store.\<close>
  "snapshot h idm = map (\<lambda>(i, a). (i, taskAt h a)) idm"

definition loadRows :: "'a store \<Rightarrow> nat \<Rightarrow> (nat \<times> 'a row_scheme) list option" where
  \<comment> \<open>The elements of the array \<open>rows\<close>, each with its reference; \<open>None\<close> if \<open>rows\<close> is
      no array of rows.\<close>
  "loadRows h rowsA =
     (case arrAt h rowsA of
        None \<Rightarrow> None
      | Some refs \<Rightarrow> those (map (\<lambda>a. map_option (Pair a) (rowAt h a)) refs))"

definition loadRels :: "'a store \<Rightarrow> nat \<Rightarrow> rel list option" where
  "loadRels h relsA =
     (case arrAt h relsA of
        None \<Rightarrow> None
      | Some refs \<Rightarrow> those (map (relAt h) refs))"

section \<open>The scenario engine on the store\<close>

definition allocTasks :: "(nat \<times> 'a row_scheme) list \<Rightarrow> 'a store \<Rightarrow> 'a store \<times> nat list" where
  \<comment> \<open>\<open>rows.map((row, idx) => ({ row, id, ... }))\<close>: the store with the working objects,
      and \<open>tasks\<close>.\<close>
  "allocTasks rows h =
     fold (\<lambda>(ra, r) (h, tasks).
             let (h', a) = alloc (TaskObj ra (ActivityID r) (mkTask r)) h
             in (h', tasks @ [a]))
       rows (h, [])"

definition taskId :: "'a store \<Rightarrow> nat \<Rightarrow> int option" where
  \<comment> \<open>\<open>task.id\<close>, \<open>None\<close> when it is not finite.\<close>
  "taskId h a = (case cell h a of Some (TaskObj ra i t) \<Rightarrow> i | _ \<Rightarrow> None)"

definition buildIds :: "'a store \<Rightarrow> nat list \<Rightarrow> ids" where
  \<comment> \<open>\<open>for (const task of tasks) if (Number.isFinite(task.id)) idMap.set(task.id, task)\<close>\<close>
  "buildIds h tasks =
     fold (\<lambda>a m. case taskId h a of Some i \<Rightarrow> AList.update i a m | None \<Rightarrow> m) tasks []"

definition applyImpact_store :: "scenario option \<Rightarrow> ids \<Rightarrow> 'a store \<Rightarrow> 'a store" where
  "applyImpact_store impact idm h =
     (case impact of
        None \<Rightarrow> h
      | Some imp \<Rightarrow>
          (case activityId imp of
             None \<Rightarrow> h
           | Some a \<Rightarrow>
               (case map_of idm a of
                  None \<Rightarrow> h
                | Some hit \<Rightarrow>
                    modTask hit (\<lambda>t. t\<lparr>duration := max 0 (duration t + deltaDays imp)\<rparr>) h)))"

record locals =
  lqueue :: "int list"
  lpending :: "int \<rightharpoonup> rat"
  lindegree :: "int \<rightharpoonup> int"
  ltopo :: "int list"

definition fwdOf :: "idmap \<Rightarrow> locals \<Rightarrow> fwd" where
  "fwdOf m loc =
     \<lparr> idMap = m, queue = lqueue loc, pending = lpending loc, indegree = lindegree loc,
       topo = ltopo loc \<rparr>"

definition localsOf :: "fwd \<Rightarrow> locals" where
  "localsOf st =
     \<lparr> lqueue = queue st, lpending = pending st, lindegree = indegree st, ltopo = topo st \<rparr>"

definition relaxEdge_store ::
  "ids \<Rightarrow> rat \<Rightarrow> rat \<Rightarrow> rel \<Rightarrow> 'a store \<times> locals \<Rightarrow> 'a store \<times> locals" where
  \<comment> \<open>The body of \<open>for (const rel of succMap.get(current.id) || [])\<close> writes to no object:
      it is \<open>relaxEdge\<close> on what the store holds.\<close>
  "relaxEdge_store idm curES curEF r = (\<lambda>(h, loc).
     (h, localsOf (relaxEdge curES curEF r (fwdOf (snapshot h idm) loc))))"

definition popTask_store ::
  "rat \<Rightarrow> rel list \<Rightarrow> ids \<Rightarrow> 'a store \<times> locals \<Rightarrow> 'a store \<times> locals" where
  \<comment> \<open>One turn of \<open>while (queue.length)\<close>; \<open>current.ES\<close> and \<open>current.EF\<close> are written to
      the object that \<open>idMap\<close> holds under the key at the head of the queue.\<close>
  "popTask_store ds edges idm = (\<lambda>(h, loc).
     (case lqueue loc of
        [] \<Rightarrow> (h, loc)
      | c # q \<Rightarrow>
          (case map_of idm c of
             None \<Rightarrow> (h, loc\<lparr>lqueue := q\<rparr>)
           | Some ca \<Rightarrow>
               (let current = taskAt h ca;
                    start = startOf ds (lpending loc c) current
                in fold (relaxEdge_store idm start (start + duration current * DAY_MS))
                     (succMap edges c)
                     (setTask ca (schedule start current) h,
                      loc\<lparr>lqueue := q, ltopo := ltopo loc @ [c]\<rparr>)))))"
definition potential_store :: "ids \<Rightarrow> locals \<Rightarrow> nat" where
  "potential_store idm loc =
     length (lqueue loc) +
     sum_list (map (\<lambda>i. nat (nullish (lindegree loc i) 0)) (map fst idm))"

lemma snapshot_keys: "map fst (snapshot h idm) = map fst idm"
  by (induction idm) (auto simp: snapshot_def)

lemma potential_fwdOf: "potential (fwdOf (snapshot h idm) loc) = potential_store idm loc"
  by (simp add: potential_def potential_store_def fwdOf_def snapshot_keys)

lemma fwdOf_localsOf: "idMap st = m \<Longrightarrow> fwdOf m (localsOf st) = st"
  by (simp add: fwdOf_def localsOf_def)

lemma localsOf_fwdOf: "localsOf (fwdOf m loc) = loc"
  by (simp add: fwdOf_def localsOf_def)

lemma fwdOf_fields:
  "idMap (fwdOf m loc) = m" "queue (fwdOf m loc) = lqueue loc"
  "pending (fwdOf m loc) = lpending loc" "indegree (fwdOf m loc) = lindegree loc"
  "topo (fwdOf m loc) = ltopo loc"
  by (simp_all add: fwdOf_def)

lemma relaxEdge_store_snd:
  "fwdOf (snapshot h idm) (snd (relaxEdge_store idm es ef r (h, loc)))
     = relaxEdge es ef r (fwdOf (snapshot h idm) loc)"
proof -
  have "idMap (relaxEdge es ef r (fwdOf (snapshot h idm) loc)) = snapshot h idm"
    by (simp add: relaxEdge_idMap fwdOf_fields)
  then show ?thesis by (simp add: relaxEdge_store_def fwdOf_localsOf)
qed

lemma relaxEdge_store_fst: "fst (relaxEdge_store idm es ef r st) = fst st"
  by (cases st) (simp add: relaxEdge_store_def)

lemma relaxEdge_store_potential:
  "potential_store idm (snd (relaxEdge_store idm es ef r st)) \<le> potential_store idm (snd st)"
proof (cases st)
  case (Pair h loc)
  have "potential (fwdOf (snapshot h idm) (snd (relaxEdge_store idm es ef r (h, loc))))
      \<le> potential (fwdOf (snapshot h idm) loc)"
    unfolding relaxEdge_store_snd by (rule relaxEdge_potential)
  then show ?thesis using Pair by (simp add: potential_fwdOf)
qed

lemma fold_relaxEdge_store_potential:
  "potential_store idm (snd (fold (relaxEdge_store idm es ef) rs st)) \<le> potential_store idm (snd st)"
proof (induction rs arbitrary: st)
  case Nil show ?case by simp
next
  case (Cons r rs)
  have "potential_store idm (snd (fold (relaxEdge_store idm es ef) rs (relaxEdge_store idm es ef r st)))
      \<le> potential_store idm (snd (relaxEdge_store idm es ef r st))"
    by (rule Cons.IH)
  also have "\<dots> \<le> potential_store idm (snd st)" by (rule relaxEdge_store_potential)
  finally show ?case by simp
qed

lemma popTask_store_potential:
  assumes "lqueue (snd st) \<noteq> []"
  shows "potential_store idm (snd (popTask_store ds edges idm st)) < potential_store idm (snd st)"
proof (cases st)
  case (Pair h loc)
  obtain c q where cq: "lqueue loc = c # q" using assms Pair by (cases "lqueue loc") auto
  show ?thesis
  proof (cases "map_of idm c")
    case None
    then show ?thesis using cq Pair by (simp add: popTask_store_def potential_store_def)
  next
    case (Some ca)
    define start where "start = startOf ds (lpending loc c) (taskAt h ca)"
    define st1 where "st1 = (setTask ca (schedule start (taskAt h ca)) h,
                             loc\<lparr>lqueue := q, ltopo := ltopo loc @ [c]\<rparr>)"
    have "potential_store idm (snd st1) < potential_store idm loc"
      using cq by (simp add: st1_def potential_store_def)
    moreover have "popTask_store ds edges idm st =
        fold (relaxEdge_store idm start (start + duration (taskAt h ca) * DAY_MS))
          (succMap edges c) st1"
      using cq Some Pair by (simp add: popTask_store_def st1_def start_def Let_def)
    ultimately show ?thesis
      using fold_relaxEdge_store_potential [of idm _ _ _ st1] Pair
      by (metis le_less_trans snd_conv)
  qed
qed

function forwardLoop_store ::
  "rat \<Rightarrow> rel list \<Rightarrow> ids \<Rightarrow> 'a store \<times> locals \<Rightarrow> 'a store \<times> locals" where
  "forwardLoop_store ds edges idm st =
     (if lqueue (snd st) = [] then st
      else forwardLoop_store ds edges idm (popTask_store ds edges idm st))"
  by pat_completeness auto
termination
  by (relation "measure (\<lambda>(ds, edges, idm, st). potential_store idm (snd st))")
     (simp_all add: popTask_store_potential)

declare forwardLoop_store.simps [simp del]

definition backwardTask_store :: "rat \<Rightarrow> rel list \<Rightarrow> ids \<Rightarrow> int \<Rightarrow> 'a store \<Rightarrow> 'a store" where
  \<comment> \<open>\<open>task.LF = lf; task.LS = ls\<close> on the object \<open>idMap.get(id)\<close>.\<close>
  "backwardTask_store pf edges idm i h =
     (case map_of idm i of
        None \<Rightarrow> h
      | Some a \<Rightarrow>
          (let t = taskAt h a;
               (ls, lf) = lateDates pf (snapshot h idm) (succMap edges i) t
           in setTask a (t\<lparr>task_LF := Some lf, task_LS := Some ls\<rparr>) h))"

definition floatTask_store ::
  "rat \<Rightarrow> rat \<Rightarrow> rel list \<Rightarrow> ids \<Rightarrow> int \<Rightarrow> 'a store \<Rightarrow> 'a store" where
  \<comment> \<open>\<open>task.TotalFloat_d = ...; task.FreeFloat_d = ...\<close> on the object held under \<open>i\<close>.\<close>
  "floatTask_store ds pf edges idm i h =
     (case map_of idm i of
        None \<Rightarrow> h
      | Some a \<Rightarrow>
          (let t = taskAt h a;
               (tf, ff) = floats ds pf (snapshot h idm) (succMap edges i) t
           in setTask a (t\<lparr>task_TotalFloat_d := Some (of_int tf),
                           task_FreeFloat_d := map_option of_int ff\<rparr>) h))"

definition emitRow :: "ids \<Rightarrow> nat \<times> 'a row_scheme \<Rightarrow> 'a store \<Rightarrow> 'a store \<times> nat" where
  \<comment> \<open>The callback of the final \<open>rows.map\<close>: the row itself when \<open>idMap\<close> has no working
      object for it, a new row object otherwise.\<close>
  "emitRow idm = (\<lambda>(ra, r) h.
     (case ActivityID r of
        None \<Rightarrow> (h, ra)
      | Some i \<Rightarrow>
          (case map_of idm i of
             None \<Rightarrow> (h, ra)
           | Some a \<Rightarrow> alloc (RowObj (outRow (snapshot h idm) r)) h)))"

fun emitRows :: "ids \<Rightarrow> (nat \<times> 'a row_scheme) list \<Rightarrow> 'a store \<Rightarrow> 'a store \<times> nat list" where
  \<comment> \<open>\<open>rows.map\<close> with that callback: the store with the new rows, and the elements of
      the new array.\<close>
  "emitRows idm [] h = (h, [])"
| "emitRows idm (x # xs) h =
     (let (h1, a) = emitRow idm x h;
          (h2, out) = emitRows idm xs h1
      in (h2, a # out))"

definition initTasks_store :: "rat \<Rightarrow> scenario option \<Rightarrow> ids \<Rightarrow> 'a store \<Rightarrow> 'a store" where
  \<comment> \<open>The defaults and the impact, written to the working objects.\<close>
  "initTasks_store ds impact idm h =
     applyImpact_store impact idm (fold (\<lambda>(i, a). modTask a (fillDefaults ds)) idm h)"

definition solve_store :: "rat \<Rightarrow> rel list \<Rightarrow> ids \<Rightarrow> 'a store \<Rightarrow> 'a store" where
  \<comment> \<open>Everything between building the network and the final \<open>rows.map\<close>.\<close>
  "solve_store ds edges idm h =
     (let (h1, loc) = forwardLoop_store ds edges idm
                        (h, localsOf (initState (snapshot h idm) edges));
          h2 = fold (\<lambda>(i, a). modTask a (fallbackTask ds)) idm h1;
          order = topoOrderOf (ltopo loc) (snapshot h2 idm);
          pf = projectFinishOf ds (snapshot h2 idm) order;
          h3 = fold (backwardTask_store pf edges idm) (rev order) h2
      in fold (floatTask_store ds pf edges idm) (map fst idm) h3)"

definition run_store ::
  "int \<Rightarrow> (nat \<times> 'a row_scheme) list \<Rightarrow> rel list \<Rightarrow> scenario option \<Rightarrow> 'a store
     \<Rightarrow> 'a store \<times> nat" where
  \<comment> \<open>The body of \<open>simulateScenario\<close>, once \<open>rows\<close> and \<open>rels\<close> are read.\<close>
  "run_store now rows rels impact h =
     (if rows = [] then alloc (ArrObj []) h
      else
        (let (h1, tasks) = allocTasks rows h;
             idm = buildIds h1 tasks
         in if idm = [] then alloc (ArrObj (map fst rows)) h1
            else
              (let ds = defaultStart now (snapshot h1 idm);
                   h2 = initTasks_store ds impact idm h1;
                   edges = networkEdges (snapshot h2 idm) rels;
                   h3 = solve_store ds edges idm h2;
                   (h4, out) = emitRows idm rows h3
               in alloc (ArrObj out) h4)))"

definition simulateScenario_store ::
  "int \<Rightarrow> 'a store \<Rightarrow> nat \<Rightarrow> nat \<Rightarrow> scenario option \<Rightarrow> ('a store \<times> nat) option" where
  \<comment> \<open>\<open>simulateScenario(rows, rels, impact)\<close> with \<open>rows\<close> and \<open>rels\<close> references into the
      store \<open>h\<close>: the store after the call and the reference of the array returned. \<open>None\<close>
      when \<open>rows\<close> or \<open>rels\<close> is no array of rows or of relationships.\<close>
  "simulateScenario_store now h rowsA relsA impact =
     (case (loadRows h rowsA, loadRels h relsA) of
        (Some rows, Some rels) \<Rightarrow> Some (run_store now rows rels impact h)
      | _ \<Rightarrow> None)"

definition storeOf :: "'a row_scheme list \<Rightarrow> rel list \<Rightarrow> 'a store" where
  \<comment> \<open>A store with the rows, the array \<open>rows\<close>, the relationships and the array \<open>rels\<close>.\<close>
  "storeOf rs rels =
     map RowObj rs @ [ArrObj [0 ..< length rs]] @ map RelObj rels @
     [ArrObj [length rs + 1 ..< length rs + 1 + length rels]]"

definition resultRows :: "('a store \<times> nat) option \<Rightarrow> 'a row_scheme list option" where
  \<comment> \<open>The rows of the array returned.\<close>
  "resultRows res =
     (case res of
        None \<Rightarrow> None
      | Some (h, a) \<Rightarrow>
          (case arrAt h a of None \<Rightarrow> None | Some refs \<Rightarrow> those (map (rowAt h) refs)))"
section \<open>What the call leaves alone\<close>

text \<open>
  \<open>keeps n h h'\<close>: the store \<open>h'\<close> has every object of \<open>h\<close> below the reference \<open>n\<close>
  unchanged, and no object of \<open>h\<close> is gone. The working objects are created after the
  objects of the caller; every write goes to a working object.
\<close>

definition keeps :: "nat \<Rightarrow> 'a store \<Rightarrow> 'a store \<Rightarrow> bool" where
  "keeps n h h' \<longleftrightarrow> length h \<le> length h' \<and> take n h' = take n h"

definition above :: "nat \<Rightarrow> ids \<Rightarrow> bool" where
  "above n idm \<longleftrightarrow> (\<forall>a \<in> set (map snd idm). n \<le> a)"

lemma keeps_refl: "keeps n h h"
  by (simp add: keeps_def)

lemma keeps_trans: "keeps n h h' \<Longrightarrow> keeps n h' h'' \<Longrightarrow> keeps n h h''"
  by (simp add: keeps_def)

lemma keeps_setTask: "n \<le> a \<Longrightarrow> keeps n h (setTask a t h)"
  by (simp add: keeps_def setTask_def)

lemma keeps_modTask: "n \<le> a \<Longrightarrow> keeps n h (modTask a f h)"
  by (simp add: modTask_def keeps_setTask)

lemma keeps_alloc: "n \<le> length h \<Longrightarrow> keeps n h (fst (alloc x h))"
  by (simp add: keeps_def alloc_def)

lemma aboveD: "above n idm \<Longrightarrow> map_of idm i = Some a \<Longrightarrow> n \<le> a"
proof -
  assume a: "above n idm" and m: "map_of idm i = Some a"
  have "(i, a) \<in> set idm" using m by (rule map_of_SomeD)
  then have "a \<in> set (map snd idm)" by force
  then show ?thesis using a unfolding above_def by blast
qed

lemma keeps_fold_modTask:
  assumes "\<forall>a \<in> set (map snd xs). n \<le> a"
  shows "keeps n h (fold (\<lambda>(i, a). modTask a f) xs h)"
  using assms
proof (induction xs arbitrary: h)
  case Nil
  show ?case by (simp add: keeps_refl)
next
  case (Cons x xs)
  obtain i a where x: "x = (i, a)" by (cases x)
  have 1: "keeps n h (modTask a f h)" using Cons.prems x by (simp add: keeps_modTask)
  have 2: "keeps n (modTask a f h) (fold (\<lambda>(i, a). modTask a f) xs (modTask a f h))"
    using Cons.IH Cons.prems by simp
  show ?case using keeps_trans [OF 1 2] x by simp
qed

lemma keeps_applyImpact_store: "above n idm \<Longrightarrow> keeps n h (applyImpact_store impact idm h)"
  by (auto simp: applyImpact_store_def keeps_refl keeps_modTask aboveD split: option.splits)

lemma keeps_fold_relaxEdge_store:
  "fst (fold (relaxEdge_store idm es ef) rs st) = fst st"
  by (induction rs arbitrary: st) (simp_all add: relaxEdge_store_fst)

lemma keeps_popTask_store:
  assumes "above n idm"
  shows "keeps n (fst st) (fst (popTask_store ds edges idm st))"
proof (cases st)
  case (Pair h loc)
  show ?thesis
  proof (cases "lqueue loc")
    case Nil
    then show ?thesis using Pair by (simp add: popTask_store_def keeps_refl)
  next
    case (Cons c q)
    show ?thesis
    proof (cases "map_of idm c")
      case None
      then show ?thesis using Pair Cons by (simp add: popTask_store_def keeps_refl)
    next
      case (Some ca)
      have "n \<le> ca" by (rule aboveD [OF assms Some])
      then show ?thesis
        using Pair Cons Some
        by (simp add: popTask_store_def Let_def keeps_fold_relaxEdge_store keeps_setTask)
    qed
  qed
qed

lemma keeps_forwardLoop_store:
  assumes "above n idm"
  shows "keeps n (fst st) (fst (forwardLoop_store ds edges idm st))"
  using assms
proof (induction ds edges idm st rule: forwardLoop_store.induct)
  case (1 ds edges idm st)
  show ?case
  proof (cases "lqueue (snd st) = []")
    case True
    then show ?thesis by (simp add: forwardLoop_store.simps keeps_refl)
  next
    case False
    have a: "keeps n (fst st) (fst (popTask_store ds edges idm st))"
      by (rule keeps_popTask_store [OF "1.prems"])
    have b: "keeps n (fst (popTask_store ds edges idm st))
               (fst (forwardLoop_store ds edges idm (popTask_store ds edges idm st)))"
      by (rule "1.IH" [OF False "1.prems"])
    show ?thesis
      using keeps_trans [OF a b] False by (subst forwardLoop_store.simps) simp
  qed
qed

lemma keeps_backwardTask_store:
  "above n idm \<Longrightarrow> keeps n h (backwardTask_store pf edges idm i h)"
  by (auto simp: backwardTask_store_def Let_def keeps_refl keeps_setTask aboveD
      split: option.splits prod.splits)

lemma keeps_floatTask_store:
  "above n idm \<Longrightarrow> keeps n h (floatTask_store ds pf edges idm i h)"
  by (auto simp: floatTask_store_def Let_def keeps_refl keeps_setTask aboveD
      split: option.splits prod.splits)

lemma keeps_fold:
  assumes "\<And>x h. keeps n h (f x h)"
  shows "keeps n h (fold f xs h)"
proof (induction xs arbitrary: h)
  case Nil
  show ?case by (simp add: keeps_refl)
next
  case (Cons x xs)
  show ?case using keeps_trans [OF assms [of h x] Cons.IH [of "f x h"]] by simp
qed

subsection \<open>The working objects are new\<close>

lemma allocTasks_fold:
  "fold (\<lambda>(ra, r) (h, tasks).
           let (h', a) = alloc (TaskObj ra (ActivityID r) (mkTask r)) h
           in (h', tasks @ [a])) rows (h, ts)
     = (h @ map (\<lambda>(ra, r). TaskObj ra (ActivityID r) (mkTask r)) rows,
        ts @ [length h ..< length h + length rows])"
proof (induction rows arbitrary: h ts)
  case Nil
  show ?case by simp
next
  case (Cons x rows)
  obtain ra r where x: "x = (ra, r)" by (cases x)
  have "[length h ..< length h + Suc (length rows)]
      = length h # [Suc (length h) ..< Suc (length h) + length rows]"
    by (simp add: upt_rec)
  then show ?case using Cons.IH [of "h @ [TaskObj ra (ActivityID r) (mkTask r)]" "ts @ [length h]"] x
    by (simp add: alloc_def)
qed

lemma allocTasks_eq:
  "allocTasks rows h
     = (h @ map (\<lambda>(ra, r). TaskObj ra (ActivityID r) (mkTask r)) rows,
        [length h ..< length h + length rows])"
  unfolding allocTasks_def allocTasks_fold by simp

lemma update_values: "set (map snd (AList.update k v m)) \<subseteq> insert v (set (map snd m))"
  by (induction m) auto

lemma buildIds_fold_values:
  "set (map snd (fold (\<lambda>a m. case taskId h a of Some i \<Rightarrow> AList.update i a m | None \<Rightarrow> m) tasks acc))
     \<subseteq> set tasks \<union> set (map snd acc)"
proof (induction tasks arbitrary: acc)
  case Nil
  show ?case by simp
next
  case (Cons a tasks)
  show ?case
  proof (cases "taskId h a")
    case None
    then show ?thesis using Cons.IH [of acc] by auto
  next
    case (Some i)
    then show ?thesis
      using Cons.IH [of "AList.update i a acc"] update_values [of i a acc] by auto
  qed
qed

lemma buildIds_above: "above n (buildIds h [n ..< n + k])"
  using buildIds_fold_values [of h "[n ..< n + k]" "[]"]
  by (auto simp: above_def buildIds_def)
subsection \<open>The rows of the result\<close>

lemma emitRow_cases:
  assumes "emitRow idm (ra, r) h = (h1, a)"
  shows "(h1 = h \<and> a = ra) \<or>
         (ActivityID r \<noteq> None \<and> h1 = h @ [RowObj (outRow (snapshot h idm) r)] \<and> a = length h)"
  using assms by (auto simp: emitRow_def alloc_def split: option.splits)

lemma emitRows_spec:
  assumes "emitRows idm rows h = (h', out)"
  shows "(\<exists>ext. h' = h @ ext) \<and> length out = length rows \<and>
         (\<forall>k < length rows.
            (ActivityID (snd (rows ! k)) = None \<longrightarrow> out ! k = fst (rows ! k)) \<and>
            (out ! k = fst (rows ! k) \<or>
             (length h \<le> out ! k \<and>
              (\<exists>M. cell h' (out ! k) = Some (RowObj (outRow M (snd (rows ! k))))))))"
  using assms
proof (induction rows arbitrary: h h' out)
  case Nil
  then show ?case by simp
next
  case (Cons x rows)
  obtain ra r where x: "x = (ra, r)" by (cases x)
  obtain h1 a where e: "emitRow idm (ra, r) h = (h1, a)" by (cases "emitRow idm (ra, r) h")
  obtain h2 out2 where r2: "emitRows idm rows h1 = (h2, out2)" by (cases "emitRows idm rows h1")
  have res: "h' = h2" "out = a # out2" using Cons.prems x e r2 by simp_all
  note ih = Cons.IH [OF r2]
  from ih obtain ext2 where ext2: "h2 = h1 @ ext2" by blast
  from emitRow_cases [OF e] have hd: "(h1 = h \<and> a = ra) \<or>
         (ActivityID r \<noteq> None \<and> h1 = h @ [RowObj (outRow (snapshot h idm) r)] \<and> a = length h)" .
  have ext: "\<exists>ext. h' = h @ ext" using hd ext2 res(1) by auto
  have len: "length out = length (x # rows)" using ih res(2) by simp
  have le1: "length h \<le> length h1" using hd by auto
  have el: "(ActivityID (snd ((x # rows) ! k)) = None \<longrightarrow> out ! k = fst ((x # rows) ! k)) \<and>
            (out ! k = fst ((x # rows) ! k) \<or>
             (length h \<le> out ! k \<and>
              (\<exists>M. cell h' (out ! k) = Some (RowObj (outRow M (snd ((x # rows) ! k)))))))"
    if k: "k < length (x # rows)" for k
  proof (cases k)
    case 0
    from hd show ?thesis
    proof
      assume "h1 = h \<and> a = ra"
      then show ?thesis using 0 x res(2) by simp
    next
      assume n: "ActivityID r \<noteq> None \<and> h1 = h @ [RowObj (outRow (snapshot h idm) r)] \<and> a = length h"
      then have "cell h' a = Some (RowObj (outRow (snapshot h idm) r))"
        using ext2 res(1) by (simp add: cell_def nth_append)
      then show ?thesis using 0 x res(2) n by auto
    qed
  next
    case (Suc j)
    then have j: "j < length rows" using k by simp
    from ih j have "(ActivityID (snd (rows ! j)) = None \<longrightarrow> out2 ! j = fst (rows ! j)) \<and>
            (out2 ! j = fst (rows ! j) \<or>
             (length h1 \<le> out2 ! j \<and>
              (\<exists>M. cell h2 (out2 ! j) = Some (RowObj (outRow M (snd (rows ! j)))))))" by blast
    then show ?thesis using Suc res le1 by auto
  qed
  show ?case using ext len el by blast
qed

lemma keeps_append: "n \<le> length h \<Longrightarrow> keeps n h (h @ ext)"
  by (simp add: keeps_def)

lemma keeps_cell: "keeps n h h' \<Longrightarrow> a < n \<Longrightarrow> a < length h \<Longrightarrow> cell h' a = cell h a"
proof -
  assume k: "keeps n h h'" and a: "a < n" "a < length h"
  have "take n h' ! a = take n h ! a" using k by (simp add: keeps_def)
  then have "h' ! a = h ! a" using a by simp
  moreover have "a < length h'" using k a by (simp add: keeps_def)
  ultimately show ?thesis using a by (simp add: cell_def)
qed

lemma loadRows_refs:
  assumes "loadRows h rowsA = Some rows" and "(ra, r) \<in> set rows"
  shows "rowAt h ra = Some r"
proof -
  from assms(1) obtain refs where
    t: "those (map (\<lambda>a. map_option (Pair a) (rowAt h a)) refs) = Some rows"
    by (auto simp: loadRows_def split: option.splits)
  have "\<And>rows. those (map (\<lambda>a. map_option (Pair a) (rowAt h a)) refs) = Some rows \<Longrightarrow>
          (ra, r) \<in> set rows \<Longrightarrow> rowAt h ra = Some r"
  proof (induction refs)
    case Nil
    then show ?case by simp
  next
    case (Cons a refs)
    then show ?case by (auto split: option.splits)
  qed
  then show ?thesis using t assms(2) by blast
qed

lemma rowAt_length: "rowAt h a = Some r \<Longrightarrow> a < length h"
  by (auto simp: rowAt_def cell_def split: if_splits)

text \<open>
  Everything between the creation of the working objects and the rows of the result
  writes to working objects only.
\<close>

lemma keeps_initTasks_store:
  assumes "above n idm"
  shows "keeps n h (initTasks_store ds impact idm h)"
proof -
  have "\<forall>a \<in> set (map snd idm). n \<le> a" using assms by (simp add: above_def)
  then have "keeps n h (fold (\<lambda>(i, a). modTask a (fillDefaults ds)) idm h)"
    by (rule keeps_fold_modTask)
  then show ?thesis
    unfolding initTasks_store_def
    using keeps_applyImpact_store [OF assms] keeps_trans by blast
qed

lemma keeps_solve_store:
  assumes "above n idm"
  shows "keeps n h (solve_store ds edges idm h)"
proof -
  obtain h1 loc where f: "forwardLoop_store ds edges idm
      (h, localsOf (initState (snapshot h idm) edges)) = (h1, loc)"
    by (cases "forwardLoop_store ds edges idm (h, localsOf (initState (snapshot h idm) edges))")
  define h2 where "h2 = fold (\<lambda>(i, a). modTask a (fallbackTask ds)) idm h1"
  define order where "order = topoOrderOf (ltopo loc) (snapshot h2 idm)"
  define pf where "pf = projectFinishOf ds (snapshot h2 idm) order"
  define h3 where "h3 = fold (backwardTask_store pf edges idm) (rev order) h2"
  have s: "solve_store ds edges idm h = fold (floatTask_store ds pf edges idm) (map fst idm) h3"
    by (simp add: solve_store_def f Let_def h2_def order_def pf_def h3_def)
  have 1: "keeps n h h1"
    using keeps_forwardLoop_store [OF assms, of "(h, localsOf (initState (snapshot h idm) edges))" ds edges] f
    by simp
  have "\<forall>a \<in> set (map snd idm). n \<le> a" using assms by (simp add: above_def)
  then have 2: "keeps n h1 h2" unfolding h2_def by (rule keeps_fold_modTask)
  have 3: "keeps n h2 h3" unfolding h3_def
    by (rule keeps_fold) (rule keeps_backwardTask_store [OF assms])
  have 4: "keeps n h3 (solve_store ds edges idm h)" unfolding s
    by (rule keeps_fold) (rule keeps_floatTask_store [OF assms])
  show ?thesis using 1 2 3 4 keeps_trans by blast
qed

section \<open>The store and the network\<close>

text \<open>
  \<open>idMap\<close> holds under different keys different working objects, all of them in the store
  (\<open>linked\<close>). A write to the working object held under a key is then the replacement of
  the value under that key in the network of the value model, and the engine on the store
  computes the network that \<open>solve\<close> computes.
\<close>

definition linked :: "'a store \<Rightarrow> ids \<Rightarrow> bool" where
  "linked h idm \<longleftrightarrow>
     distinct (map fst idm) \<and> distinct (map snd idm) \<and>
     (\<forall>a \<in> set (map snd idm). a < length h)"

lemma setTask_length: "length (setTask a t h) = length h"
  by (simp add: setTask_def)

lemma taskAt_setTask:
  "taskAt (setTask a t h) b = (if b = a \<and> a < length h then t else taskAt h b)"
  by (auto simp: taskAt_def setTask_def cell_def split: option.splits obj.splits)

lemma linked_setTask: "linked h idm \<Longrightarrow> linked (setTask a t h) idm"
  by (simp add: linked_def setTask_length)

lemma linked_modTask: "linked h idm \<Longrightarrow> linked (modTask a f h) idm"
  by (simp add: modTask_def linked_setTask)

lemma map_of_snapshot: "map_of (snapshot h idm) i = map_option (taskAt h) (map_of idm i)"
  by (induction idm) (auto simp: snapshot_def)

lemma linked_address:
  assumes "linked h idm" and "map_of idm i = Some a"
  shows "a < length h"
proof -
  have "(i, a) \<in> set idm" using assms(2) by (rule map_of_SomeD)
  then have "a \<in> set (map snd idm)" by force
  then show ?thesis using assms(1) unfolding linked_def by blast
qed

lemma snapshot_setTask_aux:
  assumes "distinct (map fst m)" and "distinct (map snd m)" and "(i, a) \<in> set m"
    and "a < length h"
  shows "map (\<lambda>(j, b). (j, taskAt (setTask a t h) b)) m
       = AList.update i t (map (\<lambda>(j, b). (j, taskAt h b)) m)"
  using assms(1,2,3)
proof (induction m)
  case Nil
  then show ?case by simp
next
  case (Cons x m)
  obtain j b where x: "x = (j, b)" by (cases x)
  show ?case
  proof (cases "j = i")
    case True
    have ba: "b = a"
    proof (rule ccontr)
      assume "b \<noteq> a"
      then have "(i, a) \<in> set m" using Cons.prems(3) x by auto
      then have "i \<in> set (map fst m)" by force
      then show False using Cons.prems(1) x True by simp
    qed
    have "a \<notin> set (map snd m)" using Cons.prems(2) x ba by simp
    then have "map (\<lambda>(j, b). (j, taskAt (setTask a t h) b)) m = map (\<lambda>(j, b). (j, taskAt h b)) m"
      by (intro map_cong refl) (force simp: taskAt_setTask)
    then show ?thesis using x True ba assms(4) by (simp add: taskAt_setTask)
  next
    case False
    then have in_m: "(i, a) \<in> set m" using Cons.prems(3) x by auto
    then have "a \<in> set (map snd m)" by force
    then have "b \<noteq> a" using Cons.prems(2) x by auto
    then show ?thesis
      using x False Cons.IH in_m Cons.prems(1,2) by (simp add: taskAt_setTask)
  qed
qed

lemma snapshot_setTask:
  assumes "linked h idm" and "map_of idm i = Some a"
  shows "snapshot (setTask a t h) idm = AList.update i t (snapshot h idm)"
proof -
  have "(i, a) \<in> set idm" using assms(2) by (rule map_of_SomeD)
  then show ?thesis
    unfolding snapshot_def
    using snapshot_setTask_aux [of idm i a h t] assms(1) linked_address [OF assms]
    by (simp add: linked_def)
qed

lemma snapshot_modTask:
  assumes "linked h idm" and "map_of idm i = Some a"
  shows "snapshot (modTask a f h) idm = AList.update i (f (taskAt h a)) (snapshot h idm)"
  unfolding modTask_def by (rule snapshot_setTask [OF assms])

lemma taskAt_fold_modTask:
  assumes "distinct (map snd xs)" and "\<forall>a \<in> set (map snd xs). a < length h"
  shows "taskAt (fold (\<lambda>(i, a). modTask a f) xs h) b
       = (if b \<in> set (map snd xs) then f (taskAt h b) else taskAt h b)"
  using assms
proof (induction xs arbitrary: h)
  case Nil
  show ?case by simp
next
  case (Cons x xs)
  obtain i a where x: "x = (i, a)" by (cases x)
  have d: "distinct (map snd xs)" and na: "a \<notin> set (map snd xs)"
    using Cons.prems(1) x by simp_all
  have l: "\<forall>c \<in> set (map snd xs). c < length (modTask a f h)"
    using Cons.prems(2) by (simp add: modTask_def setTask_length)
  have al: "a < length h" using Cons.prems(2) x by simp
  have ih: "taskAt (fold (\<lambda>(i, a). modTask a f) xs (modTask a f h)) b
      = (if b \<in> set (map snd xs) then f (taskAt (modTask a f h) b) else taskAt (modTask a f h) b)"
    by (rule Cons.IH [OF d l])
  have m: "taskAt (modTask a f h) c = (if c = a then f (taskAt h a) else taskAt h c)" for c
    using al by (simp add: modTask_def taskAt_setTask)
  have st: "fold (\<lambda>(i, a). modTask a f) (x # xs) h
          = fold (\<lambda>(i, a). modTask a f) xs (modTask a f h)"
    using x by simp
  show ?case
  proof (cases "b = a")
    case True
    then have "b \<notin> set (map snd xs)" using na by simp
    then show ?thesis unfolding st ih using True x by (simp add: m)
  next
    case False
    then show ?thesis unfolding st ih using x by (simp add: m)
  qed
qed

lemma length_fold_modTask: "length (fold (\<lambda>(i, a). modTask a f) xs h) = length h"
  by (induction xs arbitrary: h) (auto simp: modTask_def setTask_length)

lemma snapshot_fold_modTask:
  assumes "linked h idm"
  shows "snapshot (fold (\<lambda>(i, a). modTask a f) idm h) idm
       = map (\<lambda>(i, t). (i, f t)) (snapshot h idm)"
proof -
  have t: "taskAt (fold (\<lambda>(i, a). modTask a f) idm h) b
       = (if b \<in> set (map snd idm) then f (taskAt h b) else taskAt h b)" for b
    using assms by (intro taskAt_fold_modTask) (simp_all add: linked_def)
  show ?thesis
    unfolding snapshot_def map_map
    by (intro map_cong refl) (force simp: t)
qed

lemma linked_fold_modTask: "linked h idm \<Longrightarrow> linked (fold (\<lambda>(i, a). modTask a f) xs h) idm"
  by (simp add: linked_def length_fold_modTask)

lemma snapshot_applyImpact_store:
  assumes "linked h idm"
  shows "snapshot (applyImpact_store impact idm h) idm = applyImpact impact (snapshot h idm)"
  using assms
  by (auto simp: applyImpact_store_def applyImpact_def map_of_snapshot snapshot_modTask
      split: option.splits)

lemma linked_applyImpact_store: "linked h idm \<Longrightarrow> linked (applyImpact_store impact idm h) idm"
  by (auto simp: applyImpact_store_def linked_modTask split: option.splits)

lemma snapshot_initTasks_store:
  assumes "linked h idm"
  shows "snapshot (initTasks_store ds impact idm h) idm
       = applyImpact impact (map (\<lambda>(i, t). (i, fillDefaults ds t)) (snapshot h idm))"
proof -
  let ?h = "fold (\<lambda>(i, a). modTask a (fillDefaults ds)) idm h"
  have "snapshot (applyImpact_store impact idm ?h) idm = applyImpact impact (snapshot ?h idm)"
    by (rule snapshot_applyImpact_store [OF linked_fold_modTask [OF assms]])
  also have "snapshot ?h idm = map (\<lambda>(i, t). (i, fillDefaults ds t)) (snapshot h idm)"
    by (rule snapshot_fold_modTask [OF assms])
  finally show ?thesis unfolding initTasks_store_def .
qed

lemma linked_initTasks_store: "linked h idm \<Longrightarrow> linked (initTasks_store ds impact idm h) idm"
  by (simp add: initTasks_store_def linked_applyImpact_store linked_fold_modTask)

subsection \<open>The loops on the store\<close>

definition absState :: "ids \<Rightarrow> 'a store \<times> locals \<Rightarrow> fwd" where
  \<comment> \<open>The state of the forward loop in the value model.\<close>
  "absState idm st = fwdOf (snapshot (fst st) idm) (snd st)"

lemma relaxEdge_store_sim:
  "absState idm (relaxEdge_store idm es ef r st) = relaxEdge es ef r (absState idm st)"
  by (cases st) (simp add: absState_def relaxEdge_store_fst relaxEdge_store_snd)

lemma fold_relaxEdge_store_sim:
  "absState idm (fold (relaxEdge_store idm es ef) rs st)
     = fold (relaxEdge es ef) rs (absState idm st)"
  by (induction rs arbitrary: st) (simp_all add: relaxEdge_store_sim)

lemma linked_popTask_store:
  assumes "linked (fst st) idm"
  shows "linked (fst (popTask_store ds edges idm st)) idm"
proof (cases st)
  case (Pair h loc)
  then show ?thesis
    using assms
    by (auto simp: popTask_store_def Let_def keeps_fold_relaxEdge_store linked_setTask
        split: list.splits option.splits)
qed

lemma popTask_store_sim:
  assumes "linked (fst st) idm"
  shows "absState idm (popTask_store ds edges idm st) = popTask ds edges (absState idm st)"
proof (cases st)
  case (Pair h loc)
  have l: "linked h idm" using assms Pair by simp
  show ?thesis
  proof (cases "lqueue loc")
    case Nil
    then show ?thesis using Pair
      by (simp add: popTask_store_def popTask_def absState_def fwdOf_fields)
  next
    case (Cons c q)
    show ?thesis
    proof (cases "map_of idm c")
      case None
      then show ?thesis using Pair Cons
        by (simp add: popTask_store_def popTask_def absState_def fwdOf_fields map_of_snapshot
            fwdOf_def)
    next
      case (Some ca)
      define current where "current = taskAt h ca"
      define start where "start = startOf ds (lpending loc c) current"
      have s: "absState idm (setTask ca (schedule start current) h,
                             loc\<lparr>lqueue := q, ltopo := ltopo loc @ [c]\<rparr>)
             = (absState idm (h, loc))\<lparr>queue := q, topo := topo (absState idm (h, loc)) @ [c],
                 idMap := AList.update c (schedule start current) (idMap (absState idm (h, loc)))\<rparr>"
        by (simp add: absState_def fwdOf_def snapshot_setTask [OF l Some])
      have "absState idm (popTask_store ds edges idm (h, loc))
          = fold (relaxEdge start (start + duration current * DAY_MS)) (succMap edges c)
              (absState idm (setTask ca (schedule start current) h,
                             loc\<lparr>lqueue := q, ltopo := ltopo loc @ [c]\<rparr>))"
        using Cons Some
        by (simp add: popTask_store_def Let_def fold_relaxEdge_store_sim current_def start_def)
      also have "\<dots> = popTask ds edges (absState idm (h, loc))"
        unfolding s using Cons Some
        by (simp add: popTask_def Let_def absState_def fwdOf_fields map_of_snapshot
            current_def start_def)
      finally show ?thesis using Pair by simp
    qed
  qed
qed

lemma forwardLoop_store_sim:
  assumes "linked (fst st) idm"
  shows "absState idm (forwardLoop_store ds edges idm st) = forwardLoop ds edges (absState idm st)
       \<and> linked (fst (forwardLoop_store ds edges idm st)) idm"
  using assms
proof (induction ds edges idm st rule: forwardLoop_store.induct)
  case (1 ds edges idm st)
  have q: "queue (absState idm st) = lqueue (snd st)" by (simp add: absState_def fwdOf_fields)
  show ?case
  proof (cases "lqueue (snd st) = []")
    case True
    then show ?thesis using "1.prems" q
      by (simp add: forwardLoop_store.simps [of ds edges idm st]
          forwardLoop.simps [of ds edges "absState idm st"])
  next
    case False
    have l: "linked (fst (popTask_store ds edges idm st)) idm"
      by (rule linked_popTask_store [OF "1.prems"])
    have ih: "absState idm (forwardLoop_store ds edges idm (popTask_store ds edges idm st))
            = forwardLoop ds edges (absState idm (popTask_store ds edges idm st))
          \<and> linked (fst (forwardLoop_store ds edges idm (popTask_store ds edges idm st))) idm"
      by (rule "1.IH" [OF False l])
    show ?thesis
      using ih False q popTask_store_sim [OF "1.prems", of ds edges]
      by (simp add: forwardLoop_store.simps [of ds edges idm st]
          forwardLoop.simps [of ds edges "absState idm st"])
  qed
qed

lemma snapshot_backwardTask_store:
  assumes "linked h idm"
  shows "snapshot (backwardTask_store pf edges idm i h) idm = backwardTask pf edges i (snapshot h idm)"
  using assms
  by (auto simp: backwardTask_store_def backwardTask_def map_of_snapshot snapshot_setTask Let_def
      split: option.splits prod.splits)

lemma linked_backwardTask_store:
  "linked h idm \<Longrightarrow> linked (backwardTask_store pf edges idm i h) idm"
  by (auto simp: backwardTask_store_def Let_def linked_setTask split: option.splits prod.splits)

lemma fold_backwardTask_store:
  assumes "linked h idm"
  shows "snapshot (fold (backwardTask_store pf edges idm) is h) idm
           = fold (backwardTask pf edges) is (snapshot h idm)
       \<and> linked (fold (backwardTask_store pf edges idm) is h) idm"
  using assms
proof (induction "is" arbitrary: h)
  case Nil
  then show ?case by simp
next
  case (Cons i "is")
  show ?case
    using Cons.IH [OF linked_backwardTask_store [OF Cons.prems]]
    by (simp add: snapshot_backwardTask_store [OF Cons.prems])
qed

lemma snapshot_floatTask_store:
  assumes "linked h idm"
  shows "snapshot (floatTask_store ds pf edges idm i h) idm
       = floatTask ds pf edges i (snapshot h idm)"
  using assms
  by (auto simp: floatTask_store_def floatTask_def map_of_snapshot snapshot_setTask Let_def
      split: option.splits prod.splits)

lemma linked_floatTask_store:
  "linked h idm \<Longrightarrow> linked (floatTask_store ds pf edges idm i h) idm"
  by (auto simp: floatTask_store_def Let_def linked_setTask split: option.splits prod.splits)

lemma fold_floatTask_store:
  assumes "linked h idm"
  shows "snapshot (fold (floatTask_store ds pf edges idm) is h) idm
           = fold (floatTask ds pf edges) is (snapshot h idm)
       \<and> linked (fold (floatTask_store ds pf edges idm) is h) idm"
  using assms
proof (induction "is" arbitrary: h)
  case Nil
  then show ?case by simp
next
  case (Cons i "is")
  show ?case
    using Cons.IH [OF linked_floatTask_store [OF Cons.prems]]
    by (simp add: snapshot_floatTask_store [OF Cons.prems])
qed

lemma solve_store_sim:
  assumes "linked h idm"
  shows "snapshot (solve_store ds edges idm h) idm = solve ds (snapshot h idm) edges
       \<and> linked (solve_store ds edges idm h) idm"
proof -
  let ?m = "snapshot h idm"
  obtain h1 loc where f: "forwardLoop_store ds edges idm (h, localsOf (initState ?m edges)) = (h1, loc)"
    by (cases "forwardLoop_store ds edges idm (h, localsOf (initState ?m edges))")
  have i: "absState idm (h, localsOf (initState ?m edges)) = initState ?m edges"
    by (simp add: absState_def fwdOf_localsOf initState_def Let_def)
  have fl: "absState idm (h1, loc) = forwardPass ds ?m edges" and l1: "linked h1 idm"
    using forwardLoop_store_sim [of "(h, localsOf (initState ?m edges))" idm ds edges] assms f i
    by (simp_all add: forwardPass_def)
  have im: "snapshot h1 idm = idMap (forwardPass ds ?m edges)"
    and tp: "ltopo loc = topo (forwardPass ds ?m edges)"
    using arg_cong [OF fl, of idMap] arg_cong [OF fl, of topo]
    by (simp_all add: absState_def fwdOf_fields)
  define h2 where "h2 = fold (\<lambda>(i, a). modTask a (fallbackTask ds)) idm h1"
  have s2: "snapshot h2 idm = map (\<lambda>(i, t). (i, fallbackTask ds t)) (idMap (forwardPass ds ?m edges))"
    unfolding h2_def snapshot_fold_modTask [OF l1] im ..
  have l2: "linked h2 idm" unfolding h2_def by (rule linked_fold_modTask [OF l1])
  define order where "order = topoOrderOf (ltopo loc) (snapshot h2 idm)"
  define pf where "pf = projectFinishOf ds (snapshot h2 idm) order"
  define h3 where "h3 = fold (backwardTask_store pf edges idm) (rev order) h2"
  have s3: "snapshot h3 idm = backwardPass pf edges order (snapshot h2 idm)" and l3: "linked h3 idm"
    unfolding h3_def backwardPass_def using fold_backwardTask_store [OF l2] by simp_all
  have k3: "map fst (snapshot h3 idm) = map fst idm" by (rule snapshot_keys)
  have st: "solve_store ds edges idm h = fold (floatTask_store ds pf edges idm) (map fst idm) h3"
    by (simp add: solve_store_def f Let_def h2_def order_def pf_def h3_def)
  have s4: "snapshot (solve_store ds edges idm h) idm
          = floatPass ds pf edges (backwardPass pf edges order (snapshot h2 idm))"
    unfolding st floatPass_def using fold_floatTask_store [OF l3] k3 s3 by simp
  have l4: "linked (solve_store ds edges idm h) idm"
    unfolding st using fold_floatTask_store [OF l3] by simp
  have "solve ds ?m edges = floatPass ds pf edges (backwardPass pf edges order (snapshot h2 idm))"
    by (simp add: solve_def Let_def s2 tp order_def pf_def)
  then show ?thesis using s4 l4 by simp
qed

subsection \<open>The working objects and the network\<close>

lemma map_update_values:
  "map (\<lambda>(i, a). (i, g a)) (AList.update k v m)
     = AList.update k (g v) (map (\<lambda>(i, a). (i, g a)) m)"
  by (induction m) auto

lemma buildIds_fold_sim:
  assumes "list_all2 (\<lambda>a r. taskId h a = ActivityID r \<and> taskAt h a = mkTask r) as rs"
  shows "map (\<lambda>(i, a). (i, taskAt h a))
           (fold (\<lambda>a m. case taskId h a of Some i \<Rightarrow> AList.update i a m | None \<Rightarrow> m) as acc)
       = fold (\<lambda>r m. case ActivityID r of Some i \<Rightarrow> AList.update i (mkTask r) m | None \<Rightarrow> m) rs
           (map (\<lambda>(i, a). (i, taskAt h a)) acc)"
  using assms
proof (induction as rs arbitrary: acc rule: list_all2_induct)
  case Nil
  show ?case by simp
next
  case (Cons a as r rs)
  show ?case
  proof (cases "ActivityID r")
    case None
    then show ?thesis using Cons.hyps(1) Cons.IH [of acc] by simp
  next
    case (Some i)
    then show ?thesis
      using Cons.hyps(1) Cons.IH [of "AList.update i a acc"]
      by (simp add: map_update_values)
  qed
qed

lemma update_set: "set (AList.update k v m) \<subseteq> insert (k, v) (set m)"
  by (induction m) auto

lemma buildIds_fold_named:
  assumes "\<forall>(i, a) \<in> set acc. taskId h a = Some i"
  shows "\<forall>(i, a) \<in> set (fold (\<lambda>a m. case taskId h a of Some i \<Rightarrow> AList.update i a m | None \<Rightarrow> m)
                           as acc). taskId h a = Some i"
  using assms
proof (induction as arbitrary: acc)
  case Nil
  then show ?case by simp
next
  case (Cons a as)
  show ?case
  proof (cases "taskId h a")
    case None
    then show ?thesis using Cons.IH [OF Cons.prems] by simp
  next
    case (Some i)
    have "\<forall>(j, b) \<in> set (AList.update i a acc). taskId h b = Some j"
      using Cons.prems Some update_set [of i a acc] by auto
    then show ?thesis using Cons.IH Some by simp
  qed
qed

lemma buildIds_fold_distinct:
  "distinct (map fst acc) \<Longrightarrow>
   distinct (map fst (fold (\<lambda>a m. case taskId h a of Some i \<Rightarrow> AList.update i a m | None \<Rightarrow> m)
                        as acc))"
proof (induction as arbitrary: acc)
  case Nil
  then show ?case by simp
next
  case (Cons a as)
  show ?case
  proof (cases "taskId h a")
    case None
    then show ?thesis using Cons by simp
  next
    case (Some i)
    have "distinct (map fst (AList.update i a acc))" using Cons.prems by (rule distinct_update)
    then show ?thesis using Cons.IH Some by simp
  qed
qed

lemma named_distinct:
  assumes "distinct (map fst m)" and "\<forall>(i, a) \<in> set m. g a = Some i"
  shows "distinct (map snd m)"
proof -
  define ys where "ys = map snd m"
  have "\<And>x. x \<in> set m \<Longrightarrow> fst x = the (g (snd x))" using assms(2) by force
  then have e: "map fst m = map (\<lambda>a. the (g a)) ys"
    unfolding ys_def map_map by (intro map_cong refl) simp
  have "distinct (map (\<lambda>a. the (g a)) ys)" using assms(1) unfolding e .
  then have "distinct ys" by (simp add: distinct_map)
  then show ?thesis unfolding ys_def .
qed

lemma allocTasks_network:
  assumes "allocTasks rows h = (h1, tasks)"
  shows "snapshot h1 (buildIds h1 tasks) = buildIdMap (map snd rows)"
    and "linked h1 (buildIds h1 tasks)"
    and "above (length h) (buildIds h1 tasks)"
    and "\<exists>ext. h1 = h @ ext"
proof -
  let ?g = "\<lambda>(ra, r). TaskObj ra (ActivityID r) (mkTask r)"
  let ?n = "length h" and ?k = "length rows"
  have h1: "h1 = h @ map ?g rows" and ts: "tasks = [?n ..< ?n + ?k]"
    using assms by (simp_all add: allocTasks_eq)
  show "\<exists>ext. h1 = h @ ext" using h1 by blast
  have c: "cell h1 (?n + j) = Some (?g (rows ! j))" if "j < ?k" for j
    using that by (simp add: h1 cell_def nth_append)
  have l2: "list_all2 (\<lambda>a r. taskId h1 a = ActivityID r \<and> taskAt h1 a = mkTask r)
              tasks (map snd rows)"
    unfolding list_all2_conv_all_nth ts
    by (auto simp: taskId_def taskAt_def c split: prod.splits)
  show "snapshot h1 (buildIds h1 tasks) = buildIdMap (map snd rows)"
    unfolding snapshot_def buildIds_def buildIdMap_def
    using buildIds_fold_sim [OF l2, of "[]"] by simp
  have nm: "\<forall>(i, a) \<in> set (buildIds h1 tasks). taskId h1 a = Some i"
    unfolding buildIds_def by (rule buildIds_fold_named) simp
  have d1: "distinct (map fst (buildIds h1 tasks))"
    unfolding buildIds_def by (rule buildIds_fold_distinct) simp
  have d2: "distinct (map snd (buildIds h1 tasks))" by (rule named_distinct [OF d1 nm])
  have "set (map snd (buildIds h1 tasks)) \<subseteq> set tasks"
    using buildIds_fold_values [of h1 tasks "[]"] by (simp add: buildIds_def)
  then have "\<forall>a \<in> set (map snd (buildIds h1 tasks)). a < length h1"
    unfolding ts h1 by auto
  then show "linked h1 (buildIds h1 tasks)" using d1 d2 by (simp add: linked_def)
  show "above (length h) (buildIds h1 tasks)" unfolding ts by (rule buildIds_above)
qed

subsection \<open>The rows of the result are those of the value model\<close>

lemma cell_append: "a < length h \<Longrightarrow> cell (h @ ext) a = cell h a"
  by (simp add: cell_def nth_append)

lemma rowAt_append: "rowAt h a = Some r \<Longrightarrow> rowAt (h @ ext) a = Some r"
  using rowAt_length [of h a r] by (simp add: rowAt_def cell_append)

lemma snapshot_append: "linked h idm \<Longrightarrow> snapshot (h @ ext) idm = snapshot h idm"
  unfolding snapshot_def linked_def
  by (intro map_cong refl) (force simp: taskAt_def cell_append)

lemma linked_append: "linked h idm \<Longrightarrow> linked (h @ ext) idm"
  by (auto simp: linked_def)

lemma outRow_absent: "map_of m i = None \<Longrightarrow> ActivityID r = Some i \<Longrightarrow> outRow m r = r"
  by (simp add: outRow_def)

lemma emitRows_rows:
  assumes "linked h idm" and "\<forall>(ra, r) \<in> set rows. rowAt h ra = Some r"
    and "emitRows idm rows h = (h', out)"
  shows "map (rowAt h') out = map (\<lambda>(ra, r). Some (outRow (snapshot h idm) r)) rows"
  using assms
proof (induction rows arbitrary: h h' out)
  case Nil
  then show ?case by simp
next
  case (Cons x rows)
  obtain ra r where x: "x = (ra, r)" by (cases x)
  obtain h1 a where e: "emitRow idm (ra, r) h = (h1, a)" by (cases "emitRow idm (ra, r) h")
  obtain h2 out2 where r2: "emitRows idm rows h1 = (h2, out2)" by (cases "emitRows idm rows h1")
  have res: "h' = h2" "out = a # out2" using Cons.prems(3) x e r2 by simp_all
  from emitRows_spec [OF r2] obtain ext2 where ext2: "h2 = h1 @ ext2" by blast
  have rr: "rowAt h ra = Some r" using Cons.prems(2) x by simp
  from emitRow_cases [OF e] have hd: "(h1 = h \<and> a = ra) \<or>
         (ActivityID r \<noteq> None \<and> h1 = h @ [RowObj (outRow (snapshot h idm) r)] \<and> a = length h)" .
  then obtain ext1 where ext1: "h1 = h @ ext1" by auto
  have l1: "linked h1 idm" unfolding ext1 by (rule linked_append [OF Cons.prems(1)])
  have s1: "snapshot h1 idm = snapshot h idm" unfolding ext1
    by (rule snapshot_append [OF Cons.prems(1)])
  have rows1: "\<forall>(ra, r) \<in> set rows. rowAt h1 ra = Some r"
    using Cons.prems(2) unfolding ext1 by (auto simp: rowAt_append)
  have tl: "map (rowAt h2) out2 = map (\<lambda>(ra, r). Some (outRow (snapshot h idm) r)) rows"
    using Cons.IH [OF l1 rows1 r2] s1 by simp
  have hd': "rowAt h2 a = Some (outRow (snapshot h idm) r)"
    using hd
  proof
    assume same: "h1 = h \<and> a = ra"
    have o: "outRow (snapshot h idm) r = r"
    proof (cases "ActivityID r")
      case None
      then show ?thesis by (rule outRow_noid)
    next
      case (Some i)
      show ?thesis
      proof (cases "map_of idm i")
        case None
        then have "map_of (snapshot h idm) i = None" by (simp add: map_of_snapshot)
        then show ?thesis using Some by (rule outRow_absent)
      next
        case ta: (Some ta)
        have "h1 = h @ [RowObj (outRow (snapshot h idm) r)]"
          using e Some ta by (simp add: emitRow_def alloc_def)
        then show ?thesis using same by simp
      qed
    qed
    have "rowAt h2 ra = Some r" unfolding ext2 using same rr by (simp add: rowAt_append)
    then show ?thesis using same o by simp
  next
    assume n: "ActivityID r \<noteq> None \<and> h1 = h @ [RowObj (outRow (snapshot h idm) r)] \<and> a = length h"
    then have "rowAt h1 a = Some (outRow (snapshot h idm) r)"
      by (simp add: rowAt_def cell_def)
    then show ?thesis unfolding ext2 by (rule rowAt_append)
  qed
  show ?case using tl hd' res x by simp
qed

subsection \<open>The call as a whole\<close>

lemma keeps_rowAt: "keeps (length h) h h' \<Longrightarrow> rowAt h a = Some r \<Longrightarrow> rowAt h' a = Some r"
  using keeps_cell [of "length h" h h' a] rowAt_length [of h a r] by (simp add: rowAt_def)

lemma those_defined: "those (map f xs) = Some ys \<Longrightarrow> x \<in> set xs \<Longrightarrow> f x \<noteq> None"
proof (induction xs arbitrary: ys)
  case Nil
  then show ?case by simp
next
  case (Cons a xs)
  then show ?case by (auto split: option.splits)
qed

lemma those_Some: "those (map Some xs) = Some xs"
  by (induction xs) simp_all

lemma loadRows_keeps:
  assumes "keeps (length h) h h'" and "loadRows h rowsA = Some rows"
  shows "loadRows h' rowsA = Some rows"
proof -
  from assms(2) obtain refs where a: "arrAt h rowsA = Some refs"
    and t: "those (map (\<lambda>a. map_option (Pair a) (rowAt h a)) refs) = Some rows"
    by (auto simp: loadRows_def split: option.splits)
  have "rowsA < length h" using a by (auto simp: arrAt_def cell_def split: if_splits)
  then have a': "arrAt h' rowsA = Some refs"
    using a keeps_cell [OF assms(1), of rowsA] by (simp add: arrAt_def)
  have me: "map (\<lambda>a. map_option (Pair a) (rowAt h' a)) refs
      = map (\<lambda>a. map_option (Pair a) (rowAt h a)) refs"
  proof (intro map_cong refl)
    fix x assume "x \<in> set refs"
    then have "map_option (Pair x) (rowAt h x) \<noteq> None" using those_defined [OF t] by blast
    then obtain r where "rowAt h x = Some r" by auto
    then show "map_option (Pair x) (rowAt h' x) = map_option (Pair x) (rowAt h x)"
      using keeps_rowAt [OF assms(1)] by simp
  qed
  show ?thesis unfolding loadRows_def a' option.case me by (rule t)
qed

lemma loadRels_keeps:
  assumes "keeps (length h) h h'" and "loadRels h relsA = Some rels"
  shows "loadRels h' relsA = Some rels"
proof -
  from assms(2) obtain refs where a: "arrAt h relsA = Some refs"
    and t: "those (map (relAt h) refs) = Some rels"
    by (auto simp: loadRels_def split: option.splits)
  have "relsA < length h" using a by (auto simp: arrAt_def cell_def split: if_splits)
  then have a': "arrAt h' relsA = Some refs"
    using a keeps_cell [OF assms(1), of relsA] by (simp add: arrAt_def)
  have me: "map (relAt h') refs = map (relAt h) refs"
  proof (intro map_cong refl)
    fix x assume "x \<in> set refs"
    then have "relAt h x \<noteq> None" using those_defined [OF t] by blast
    then have "x < length h" by (auto simp: relAt_def cell_def split: if_splits)
    then show "relAt h' x = relAt h x"
      using keeps_cell [OF assms(1), of x] by (simp add: relAt_def)
  qed
  show ?thesis unfolding loadRels_def a' option.case me by (rule t)
qed

lemma run_store_spec:
  assumes rows: "\<forall>(ra, r) \<in> set rows. rowAt h ra = Some r"
  shows "\<exists>h' resA out.
           run_store now rows rels impact h = (h', resA) \<and> keeps (length h) h h' \<and>
           length h \<le> resA \<and> arrAt h' resA = Some out \<and>
           map (rowAt h') out = map Some (simulateScenario now (map snd rows) rels impact) \<and>
           length out = length rows \<and>
           (\<forall>k < length rows. ActivityID (snd (rows ! k)) = None \<longrightarrow> out ! k = fst (rows ! k))"
proof (cases "rows = []")
  case True
  have "run_store now rows rels impact h = (h @ [ArrObj []], length h)"
    using True by (simp add: run_store_def alloc_def)
  moreover have "arrAt (h @ [ArrObj []]) (length h) = Some []" by (simp add: arrAt_def cell_def)
  ultimately show ?thesis using True
    by (simp add: keeps_append simulateScenario_def)
next
  case False
  let ?rs = "map snd rows"
  obtain h1 tasks where al: "allocTasks rows h = (h1, tasks)" by (cases "allocTasks rows h")
  define idm where "idm = buildIds h1 tasks"
  note net = allocTasks_network [OF al, folded idm_def]
  from net(4) obtain ext1 where ext1: "h1 = h @ ext1" by blast
  have k1: "keeps (length h) h h1" unfolding ext1 by (rule keeps_append) simp
  have rows1: "\<forall>(ra, r) \<in> set rows. rowAt h1 ra = Some r"
    using rows keeps_rowAt [OF k1] by auto
  show ?thesis
  proof (cases "idm = []")
    case True
    have b: "buildIdMap ?rs = []" using net(1) True by (simp add: snapshot_def)
    have run: "run_store now rows rels impact h = (h1 @ [ArrObj (map fst rows)], length h1)"
      using False al True by (simp add: run_store_def idm_def alloc_def)
    have arr: "arrAt (h1 @ [ArrObj (map fst rows)]) (length h1) = Some (map fst rows)"
      by (simp add: arrAt_def cell_def)
    have "map (rowAt (h1 @ [ArrObj (map fst rows)])) (map fst rows) = map Some ?rs"
      unfolding map_map using rows1 by (intro map_cong refl) (auto simp: rowAt_append)
    moreover have "simulateScenario now ?rs rels impact = ?rs"
      using False b by (simp add: simulateScenario_def)
    moreover have "keeps (length h) h (h1 @ [ArrObj (map fst rows)])"
      unfolding ext1 by (simp add: keeps_def)
    moreover have "length h \<le> length h1" unfolding ext1 by simp
    ultimately show ?thesis using run arr by simp
  next
    case ne: False
    have b: "buildIdMap ?rs \<noteq> []" using net(1) ne by (auto simp: snapshot_def)
    define ds where "ds = defaultStart now (snapshot h1 idm)"
    define h2 where "h2 = initTasks_store ds impact idm h1"
    define edges where "edges = networkEdges (snapshot h2 idm) rels"
    define h3 where "h3 = solve_store ds edges idm h2"
    obtain h4 out where em: "emitRows idm rows h3 = (h4, out)" by (cases "emitRows idm rows h3")
    have run: "run_store now rows rels impact h = (h4 @ [ArrObj out], length h4)"
      using False al ne em
      by (simp add: run_store_def idm_def [symmetric] Let_def ds_def [symmetric]
          h2_def [symmetric] edges_def [symmetric] h3_def [symmetric] alloc_def)
    have ds: "ds = defaultStart now (buildIdMap ?rs)" by (simp add: ds_def net(1))
    have s2: "snapshot h2 idm = initTasks ds ?rs impact"
      unfolding h2_def snapshot_initTasks_store [OF net(2)] net(1) initTasks_def ..
    have l2: "linked h2 idm" unfolding h2_def by (rule linked_initTasks_store [OF net(2)])
    have s3: "snapshot h3 idm = solve ds (initTasks ds ?rs impact) edges" and l3: "linked h3 idm"
      unfolding h3_def using solve_store_sim [OF l2, of ds edges] s2 by simp_all
    have ed: "edges = networkEdges (initTasks ds ?rs impact) rels" by (simp add: edges_def s2)
    have k2: "keeps (length h) h1 h2" unfolding h2_def by (rule keeps_initTasks_store [OF net(3)])
    have k3: "keeps (length h) h2 h3" unfolding h3_def by (rule keeps_solve_store [OF net(3)])
    have k13: "keeps (length h) h h3" using k1 k2 k3 keeps_trans by blast
    have rows3: "\<forall>(ra, r) \<in> set rows. rowAt h3 ra = Some r"
      using rows keeps_rowAt [OF k13] by auto
    note sp = emitRows_spec [OF em]
    from sp obtain ext4 where ext4: "h4 = h3 @ ext4" by blast
    have k4: "keeps (length h) h (h4 @ [ArrObj out])"
      using k13 unfolding ext4 keeps_def by simp
    have le: "length h \<le> length h4" using k13 unfolding ext4 keeps_def by simp
    have arr: "arrAt (h4 @ [ArrObj out]) (length h4) = Some out"
      by (simp add: arrAt_def cell_def)
    have r4: "map (rowAt h4) out = map (\<lambda>(ra, r). Some (outRow (snapshot h3 idm) r)) rows"
      by (rule emitRows_rows [OF l3 rows3 em])
    have "map (rowAt (h4 @ [ArrObj out])) out = map (rowAt h4) out"
    proof (intro map_cong refl)
      fix a assume "a \<in> set out"
      then have "rowAt h4 a \<in> set (map (rowAt h4) out)" by simp
      then obtain r where "rowAt h4 a = Some r" unfolding r4 by auto
      then show "rowAt (h4 @ [ArrObj out]) a = rowAt h4 a" by (simp add: rowAt_append)
    qed
    also have "\<dots> = map Some (map (outRow (solve ds (initTasks ds ?rs impact) edges)) ?rs)"
      unfolding r4 s3 by (simp add: case_prod_unfold comp_def)
    also have "map (outRow (solve ds (initTasks ds ?rs impact) edges)) ?rs
             = simulateScenario now ?rs rels impact"
      using False b by (simp add: simulateScenario_def Let_def ds ed)
    finally have rowsEq: "map (rowAt (h4 @ [ArrObj out])) out
        = map Some (simulateScenario now ?rs rels impact)" .
    have pass: "\<forall>k < length rows. ActivityID (snd (rows ! k)) = None \<longrightarrow> out ! k = fst (rows ! k)"
      using sp by blast
    have len: "length out = length rows" using sp by blast
    show ?thesis using run k4 le arr rowsEq pass len by simp
  qed
qed

section \<open>The inputs are left alone and the output is framed\<close>

text \<open>
  C10. A call with \<open>rows\<close> an array of row objects and \<open>rels\<close> an array of relationship
  objects returns, and after it every object that existed before the call is what it was
  (\<open>take (length h) h' = h\<close>): the row objects, the array \<open>rows\<close>, the relationships and the
  array \<open>rels\<close> among them, so \<open>rows\<close> and \<open>rels\<close> read as before. The array returned is a
  new object. Its rows are those of \<open>simulateScenario\<close> in the value model, record by
  record equal to the input in every field but ES, EF, LS, LF, DurDays, TotalFloat_d and
  FreeFloat_d (also in the columns the model does not name, which are the extension part
  of the record); and for a row without a numeric id the array returned holds the very
  object that \<open>rows\<close> holds.
\<close>

theorem simulateScenario_frame:
  assumes "loadRows h rowsA = Some rows" and "loadRels h relsA = Some rels"
  shows "\<exists>h' resA out.
           simulateScenario_store now h rowsA relsA impact = Some (h', resA) \<and>
           take (length h) h' = h \<and>
           loadRows h' rowsA = Some rows \<and> loadRels h' relsA = Some rels \<and>
           length h \<le> resA \<and> arrAt h' resA = Some out \<and>
           those (map (rowAt h') out) = Some (simulateScenario now (map snd rows) rels impact) \<and>
           map frame (simulateScenario now (map snd rows) rels impact) = map frame (map snd rows) \<and>
           length out = length rows \<and>
           (\<forall>k < length rows. ActivityID (snd (rows ! k)) = None \<longrightarrow> out ! k = fst (rows ! k))"
proof -
  have rows: "\<forall>(ra, r) \<in> set rows. rowAt h ra = Some r"
    using loadRows_refs [OF assms(1)] by auto
  from run_store_spec [OF rows, of now rels impact]
  obtain h' resA out where r: "run_store now rows rels impact h = (h', resA)"
    and k: "keeps (length h) h h'" and le: "length h \<le> resA"
    and arr: "arrAt h' resA = Some out"
    and eq: "map (rowAt h') out = map Some (simulateScenario now (map snd rows) rels impact)"
    and len: "length out = length rows"
    and pass: "\<forall>k < length rows. ActivityID (snd (rows ! k)) = None \<longrightarrow> out ! k = fst (rows ! k)"
    by blast
  have run: "simulateScenario_store now h rowsA relsA impact = Some (h', resA)"
    using assms r by (simp add: simulateScenario_store_def)
  have tk: "take (length h) h' = h" using k by (simp add: keeps_def)
  have fr: "map frame (simulateScenario now (map snd rows) rels impact) = map frame (map snd rows)"
    by (simp add: simulateScenario_unfold outRow_frame)
  have th: "those (map (rowAt h') out) = Some (simulateScenario now (map snd rows) rels impact)"
    unfolding eq by (rule those_Some)
  show ?thesis
    using run tk loadRows_keeps [OF k assms(1)] loadRels_keeps [OF k assms(2)] le arr th fr len pass
    by blast
qed

theorem simulateScenario_frame_witness:
  "loadRows (storeOf chainRows chainRels) 3 = Some (zip [0, 1, 2] chainRows) \<and>
   loadRels (storeOf chainRows chainRels) 5 = Some chainRels \<and>
   (\<exists>h' resA out.
      simulateScenario_store 0 (storeOf chainRows chainRels) 3 5 None = Some (h', resA) \<and>
      take 6 h' = storeOf chainRows chainRels \<and>
      loadRows h' 3 = Some (zip [0, 1, 2] chainRows) \<and> loadRels h' 5 = Some chainRels \<and>
      6 \<le> resA \<and> arrAt h' resA = Some out \<and>
      those (map (rowAt h') out) =
        Some [solvedRow 1 ''A'' 0 5 0 5 5 0 0, solvedRow 2 ''B'' 5 8 5 8 3 0 0, noteRow] \<and>
      out ! 2 = 2)"
proof -
  have lr: "loadRows (storeOf chainRows chainRels) 3 = Some (zip [0, 1, 2] chainRows)"
    by code_simp
  have ll: "loadRels (storeOf chainRows chainRels) 5 = Some chainRels"
    by code_simp
  have len: "length (storeOf chainRows chainRels) = 6"
    by (simp add: storeOf_def chainRows_def chainRels_def)
  have rs: "map snd (zip [0, 1, 2 :: nat] chainRows) = chainRows"
    by (simp add: chainRows_def)
  have n: "length (zip [0, 1, 2 :: nat] chainRows) = 3 \<and>
           ActivityID (snd (zip [0, 1, 2 :: nat] chainRows ! 2)) = None \<and>
           fst (zip [0, 1, 2 :: nat] chainRows ! 2) = 2"
    by (simp add: chainRows_def noteRow_def)
  show ?thesis
    using simulateScenario_frame [OF lr ll, of 0 None] lr ll n
    unfolding len rs chain_solved by fastforce
qed

end
